theory Spec2Isabelle
  imports Main "HOL-Library.Mapping" "HOL-Library.AList_Mapping"
begin

section \<open>Replica Balancer: \<open>adjustMachineSets\<close>\<close>

text \<open>
  The Go function \<open>adjustMachineSets\<close> receives the grouping
  \<open>machineSetReplicas :: map[int][]string\<close> (replica count to the names of the machine
  sets at that count) and \<open>desiredWorkerCount\<close>, and returns the plan
  \<open>machineSetsToEdit\<close>, a \<open>sync.Map\<close> from machine set name to \<open>MachineSetInfo\<close>.
  Both Go maps are modelled as finite mappings. Go's run-time panics are values of type
  \<open>panic\<close>.

  Go's \<open>int\<close> is the 64-bit two's complement integer of the platforms the tool is built
  for. A Go \<open>int\<close> is a HOL integer between \<open>MinInt\<close> and \<open>MaxInt\<close>, and the addition
  \<open>value + 1\<close> of lines 75, 80, 82, 96 and 97 wraps around: it is \<open>wrap (value + 1)\<close>.
  The decrement of \<open>desiredWorkerCount\<close> (line 84) is only executed when the count is
  positive, where it cannot wrap.
\<close>

definition MaxInt :: int where
  "MaxInt = 9223372036854775807"

definition MinInt :: int where
  "MinInt = - 9223372036854775808"

definition wrap :: "int \<Rightarrow> int" where
  "wrap x = (x - MinInt) mod 18446744073709551616 + MinInt"

record MachineSetInfo =
  prevReplicas :: int
  currentReplicas :: int

datatype panic = IndexOutOfRange | SliceBoundsOutOfRange | NilInterfaceConversion

type_synonym groups = "(int, string list) mapping"
type_synonym plan = "(string, MachineSetInfo) mapping"

text \<open>
  The variables of \<open>adjustMachineSets\<close>. The last two fields are ghost state, absent
  from the source: \<open>increments\<close> logs every execution of the increment branch (lines
  72--85) as the pair of the machine set and the level \<open>value\<close> it was taken from, and
  \<open>stores\<close> logs the content of \<open>machineSetsToEdit\<close> after every \<open>Store\<close> call,
  both oldest first. No field of the source reads them. \<open>lastIndex\<close> and \<open>index\<close> are
  never negative and are natural numbers; the comparisons of lines 90 and 96 with
  \<open>len(...) - 1\<close> are made over the integers, as in the source.
\<close>

record balancer =
  machineSetReplicas :: groups
  machineSetsToEdit :: plan
  desiredWorkerCount :: int
  lastIndex :: nat
  keys :: "int list"
  index :: nat
  modified :: bool
  increments :: "(string \<times> int) list"
  stores :: "plan list"

definition Store :: "string \<Rightarrow> MachineSetInfo \<Rightarrow> balancer \<Rightarrow> balancer" where
  "Store k v s =
     s\<lparr>machineSetsToEdit := Mapping.update k v (machineSetsToEdit s),
       stores := stores s @ [Mapping.update k v (machineSetsToEdit s)]\<rparr>"

text \<open>Lines 72--85: the body of the inner loop when \<open>desiredWorkerCount > 0\<close>.
  \<open>i\<close> is the inner (shadowing) \<open>index\<close> of the \<open>range\<close> loop.\<close>

definition increment :: "int \<Rightarrow> nat \<Rightarrow> string \<Rightarrow> balancer \<Rightarrow> panic + balancer" where
  "increment value i machineSet s =
     (let s1 = (if Mapping.lookup (machineSetsToEdit s) machineSet = None
                then Store machineSet \<lparr>prevReplicas = value, currentReplicas = wrap (value + 1)\<rparr> s
                else s)
      in case Mapping.lookup (machineSetsToEdit s1) machineSet of
           None \<Rightarrow> Inl NilInterfaceConversion
         | Some msInfo \<Rightarrow>
             let s2 = Store machineSet (msInfo\<lparr>currentReplicas := wrap (value + 1)\<rparr>) s1
             in Inr (s2\<lparr>machineSetReplicas :=
                          Mapping.update (wrap (value + 1))
                            (Mapping.lookup_default [] (machineSetReplicas s2) (wrap (value + 1)) @
                             [machineSet])
                            (machineSetReplicas s2),
                        lastIndex := i,
                        desiredWorkerCount := desiredWorkerCount s2 - 1,
                        modified := True,
                        increments := increments s2 @ [(machineSet, value)]\<rparr>))"

text \<open>Lines 70--89: \<open>for index, machineSet := range machineSets\<close>, which stops at the
  first element met with \<open>desiredWorkerCount \<le> 0\<close>.\<close>

fun range_machineSets :: "int \<Rightarrow> nat \<Rightarrow> string list \<Rightarrow> balancer \<Rightarrow> panic + balancer" where
  "range_machineSets value i [] s = Inr s"
| "range_machineSets value i (machineSet # rest) s =
     (if desiredWorkerCount s > 0
      then (case increment value i machineSet s of
              Inl e \<Rightarrow> Inl e
            | Inr s' \<Rightarrow> range_machineSets value (Suc i) rest s')
      else Inr s)"

text \<open>Lines 90--94. \<open>machineSets[lastIndex + 1:]\<close> panics when \<open>lastIndex + 1\<close>
  exceeds the length of the slice.\<close>

definition trim_group :: "int \<Rightarrow> string list \<Rightarrow> balancer \<Rightarrow> panic + balancer" where
  "trim_group value machineSets s =
     (if int (lastIndex s) = int (length machineSets) - 1
      then Inr (s\<lparr>machineSetReplicas := Mapping.delete value (machineSetReplicas s)\<rparr>)
      else if length machineSets < lastIndex s + 1 then Inl SliceBoundsOutOfRange
      else Inr (s\<lparr>machineSetReplicas :=
                    Mapping.update value (drop (lastIndex s + 1) machineSets) (machineSetReplicas s)\<rparr>))"

text \<open>Lines 96--98. Go parses the condition as
  \<open>(modified && index == len(keys) - 1) || (value + 1 != keys[index + 1])\<close>; the right
  operand is evaluated only when the left one is false, and \<open>keys[index + 1]\<close> panics
  when \<open>index\<close> is the last position.\<close>

definition push_key :: "int \<Rightarrow> balancer \<Rightarrow> balancer" where
  "push_key value s =
     s\<lparr>keys := take (index s + 1) (keys s) @ ([wrap (value + 1)] @ drop (index s + 1) (keys s))\<rparr>"

definition insert_key :: "int \<Rightarrow> balancer \<Rightarrow> panic + balancer" where
  "insert_key value s =
     (if modified s \<and> int (index s) = int (length (keys s)) - 1 then Inr (push_key value s)
      else if length (keys s) \<le> index s + 1 then Inl IndexOutOfRange
      else if wrap (value + 1) \<noteq> keys s ! (index s + 1) then Inr (push_key value s)
      else Inr s)"

text \<open>Lines 67--98: one iteration of the outer loop up to the test of line 99. It is
  only called with \<open>index < len(keys)\<close>.\<close>

definition loop_body :: "balancer \<Rightarrow> panic + balancer" where
  "loop_body s0 =
     (let s = s0\<lparr>modified := False\<rparr>;
          value = keys s ! index s
      in case (case Mapping.lookup (machineSetReplicas s) value of
                 None \<Rightarrow> Inr s
               | Some machineSets \<Rightarrow>
                   (case range_machineSets value 0 machineSets s of
                      Inl e \<Rightarrow> Inl e
                    | Inr s1 \<Rightarrow> trim_group value machineSets s1)) of
           Inl e \<Rightarrow> Inl e
         | Inr s2 \<Rightarrow> insert_key value s2)"

text \<open>Lines 66--103: \<open>for index < len(keys)\<close>. The loop has no syntactic bound (the key
  list grows while the index walks it), so it is a partial function: \<open>None\<close> is a run
  that never returns.\<close>

partial_function (option) outer_loop :: "balancer \<Rightarrow> (panic + balancer) option" where
  "outer_loop s =
     (if index s < length (keys s)
      then (case loop_body s of
              Inl e \<Rightarrow> Some (Inl e)
            | Inr s' \<Rightarrow>
                if desiredWorkerCount s' \<le> 0 then Some (Inr s')
                else outer_loop (s'\<lparr>index := index s' + 1\<rparr>))
      else Some (Inr s))"

declare outer_loop.simps [code]

text \<open>Lines 58--65: the initial state; \<open>keys\<close> are the keys of the map, sorted.\<close>

definition initial :: "groups \<Rightarrow> int \<Rightarrow> balancer" where
  "initial g D =
     \<lparr>machineSetReplicas = g, machineSetsToEdit = Mapping.empty, desiredWorkerCount = D,
      lastIndex = 0, keys = Mapping.ordered_keys g, index = 0, modified = False,
      increments = [], stores = []\<rparr>"

definition balance :: "groups \<Rightarrow> int \<Rightarrow> (panic + balancer) option" where
  "balance g D = outer_loop (initial g D)"

definition adjustMachineSets :: "groups \<Rightarrow> int \<Rightarrow> (panic + plan) option" where
  "adjustMachineSets g D = map_option (map_sum id machineSetsToEdit) (balance g D)"

subsection \<open>Vocabulary of the balancer's properties\<close>

text \<open>The fleet described by a grouping: every machine set with its starting replica
  count, in ascending order of the count.\<close>

definition pools_of :: "groups \<Rightarrow> (string \<times> int) list" where
  "pools_of g =
     concat (map (\<lambda>k. map (\<lambda>m. (m, k)) (Mapping.lookup_default [] g k)) (Mapping.ordered_keys g))"

text \<open>A grouping as the inventory reader builds it: a finite map with at least one
  key, whose keys are Go \<open>int\<close>s, no key with an empty list, and every machine set listed
  once (a machine set has one name and one replica count).\<close>

definition wf_groups :: "groups \<Rightarrow> bool" where
  "wf_groups g \<longleftrightarrow>
     finite (Mapping.keys g) \<and> Mapping.keys g \<noteq> {} \<and>
     (\<forall>k \<in> Mapping.keys g. MinInt \<le> k \<and> k \<le> MaxInt) \<and>
     (\<forall>k \<in> Mapping.keys g. Mapping.lookup_default [] g k \<noteq> []) \<and>
     distinct (map fst (pools_of g))"

text \<open>\<open>fits g D\<close>: the replica counts of the grouping are Go \<open>int\<close>s and none of them
  can pass \<open>MaxInt\<close>, even if all \<open>D\<close> additional workers went to the machine sets with
  the largest count.\<close>

definition fits :: "groups \<Rightarrow> int \<Rightarrow> bool" where
  "fits g D \<longleftrightarrow>
     (\<forall>k \<in> Mapping.keys g. MinInt \<le> k \<and> k \<le> MaxInt \<and> k + D \<le> MaxInt)"

text \<open>The sum over the plan of \<open>currentReplicas - prevReplicas\<close>.\<close>

definition plan_total :: "plan \<Rightarrow> int" where
  "plan_total p =
     (\<Sum>m \<in> Mapping.keys p.
        case Mapping.lookup p m of
          None \<Rightarrow> 0
        | Some info \<Rightarrow> currentReplicas info - prevReplicas info)"

text \<open>The replica count of a machine set after the pass: \<open>currentReplicas\<close> when it
  is in the plan, its starting count otherwise.\<close>

definition final_replicas :: "groups \<Rightarrow> plan \<Rightarrow> string \<Rightarrow> int option" where
  "final_replicas g p m =
     (case Mapping.lookup p m of
        Some info \<Rightarrow> Some (currentReplicas info)
      | None \<Rightarrow> map_of (pools_of g) m)"

text \<open>The leveling invariant over the log of increments: whenever entry \<open>j\<close>
  increments a machine set that was incremented before, every machine set whose starting
  count is below the level that entry takes it from was incremented before entry \<open>j\<close>
  too.\<close>

definition leveling :: "groups \<Rightarrow> (string \<times> int) list \<Rightarrow> bool" where
  "leveling g tr \<longleftrightarrow>
     (\<forall>j < length tr.
        fst (tr ! j) \<in> fst ` set (take j tr) \<longrightarrow>
        (\<forall>(q, k) \<in> set (pools_of g). k < snd (tr ! j) \<longrightarrow> q \<in> fst ` set (take j tr)))"

text \<open>\<open>entries_kept a b\<close>: every entry of plan \<open>a\<close> is still in plan \<open>b\<close>, with the
  same \<open>prevReplicas\<close> and a \<open>currentReplicas\<close> that is not smaller.\<close>

definition entries_kept :: "plan \<Rightarrow> plan \<Rightarrow> bool" where
  "entries_kept a b \<longleftrightarrow>
     (\<forall>m x. Mapping.lookup a m = Some x \<longrightarrow>
        (\<exists>y. Mapping.lookup b m = Some y \<and> prevReplicas y = prevReplicas x \<and>
             currentReplicas x \<le> currentReplicas y))"


subsection \<open>Invariants of the two loops\<close>

text \<open>\<open>level_inv g D0 v todo s\<close> holds between two iterations of the inner loop over the
  group at level \<open>v\<close>, for a run started on \<open>g\<close> with \<open>D0\<close> additional workers;
  \<open>todo\<close> is what is left of the group. Every entry of the plan belongs to a machine
  set of the fleet, records its starting count and has grown to at most \<open>v + 1\<close>; no
  machine set is below \<open>v\<close>, and those at \<open>v\<close> are the ones left in \<open>todo\<close>; the
  group stored at \<open>v + 1\<close> lists the machine sets at that count; the groups above it are
  as in \<open>g\<close>; the increments made and those still desired add up to \<open>D0\<close>; the log has
  an entry for each machine set of the plan and satisfies the leveling invariant.\<close>

definition level_inv :: "groups \<Rightarrow> int \<Rightarrow> int \<Rightarrow> string list \<Rightarrow> balancer \<Rightarrow> bool" where
  "level_inv g D0 v todo s \<longleftrightarrow>
     finite (Mapping.keys (machineSetsToEdit s)) \<and>
     (\<forall>m x. Mapping.lookup (machineSetsToEdit s) m = Some x \<longrightarrow>
        map_of (pools_of g) m = Some (prevReplicas x) \<and>
        prevReplicas x < currentReplicas x \<and> currentReplicas x \<le> v + 1) \<and>
     (\<forall>m l. final_replicas g (machineSetsToEdit s) m = Some l \<longrightarrow>
        v \<le> l \<and> (l = v \<longrightarrow> m \<in> set todo)) \<and>
     distinct todo \<and>
     (\<forall>m \<in> set todo. final_replicas g (machineSetsToEdit s) m = Some v) \<and>
     distinct (Mapping.lookup_default [] (machineSetReplicas s) (v + 1)) \<and>
     set (Mapping.lookup_default [] (machineSetReplicas s) (v + 1)) =
       {m. final_replicas g (machineSetsToEdit s) m = Some (v + 1)} \<and>
     (\<forall>k. v + 1 < k \<longrightarrow> Mapping.lookup (machineSetReplicas s) k = Mapping.lookup g k) \<and>
     plan_total (machineSetsToEdit s) + desiredWorkerCount s = D0 \<and>
     fst ` set (increments s) = Mapping.keys (machineSetsToEdit s) \<and>
     leveling g (increments s)"

text \<open>The entry of a machine set after its increment from level \<open>v\<close> (lines 72--81).\<close>

definition bumped :: "int \<Rightarrow> MachineSetInfo option \<Rightarrow> MachineSetInfo" where
  "bumped v e =
     (case e of
        None \<Rightarrow> \<lparr>prevReplicas = v, currentReplicas = wrap (v + 1)\<rparr>
      | Some x \<Rightarrow> x\<lparr>currentReplicas := wrap (v + 1)\<rparr>)"

text \<open>\<open>store_inv c s\<close>: the logged plans form a chain for \<open>entries_kept\<close> that ends
  below the present plan, and no entry of the present plan exceeds \<open>c\<close>. \<open>store_head\<close>
  holds at the head of the outer loop, for any grouping, while workers are still desired
  in a run that stays below \<open>MaxInt\<close>: the keys ascend strictly, and when a key is left
  to visit, no entry exceeds it, it plus the workers still desired does not pass
  \<open>MaxInt\<close>, and it has a group.\<close>

definition store_inv :: "int \<Rightarrow> balancer \<Rightarrow> bool" where
  "store_inv c s \<longleftrightarrow>
     sorted_wrt entries_kept (stores s) \<and>
     (\<forall>h \<in> set (stores s). entries_kept h (machineSetsToEdit s)) \<and>
     (\<forall>m x. Mapping.lookup (machineSetsToEdit s) m = Some x \<longrightarrow> currentReplicas x \<le> c)"


text \<open>\<open>outer_inv\<close> holds at the head of the outer loop while workers are still desired,
  in a run that stays below \<open>MaxInt\<close>: the keys are strictly ascending, the current
  key plus the workers still desired does not pass \<open>MaxInt\<close>, all levels below the
  current key are done, the current key has a non-empty group, and the keys of \<open>g\<close>
  above it are still ahead.\<close>

definition outer_inv :: "groups \<Rightarrow> int \<Rightarrow> balancer \<Rightarrow> bool" where
  "outer_inv g D0 s \<longleftrightarrow>
     index s < length (keys s) \<and> sorted_wrt (<) (keys s) \<and> 0 < desiredWorkerCount s \<and>
     MinInt \<le> keys s ! index s \<and> keys s ! index s + desiredWorkerCount s \<le> MaxInt \<and>
     level_inv g D0 (keys s ! index s - 1) [] s \<and>
     Mapping.lookup_default [] (machineSetReplicas s) (keys s ! index s) \<noteq> [] \<and>
     (\<forall>k \<in> Mapping.keys g. keys s ! index s < k \<longrightarrow> k \<in> set (keys s))"

text \<open>\<open>finished\<close> holds when such a run stops with nothing more desired.\<close>

definition finished :: "groups \<Rightarrow> int \<Rightarrow> balancer \<Rightarrow> bool" where
  "finished g D0 s \<longleftrightarrow> desiredWorkerCount s = 0 \<and> (\<exists>v todo. level_inv g D0 v todo s)"

text \<open>\<open>pending_inv g v todo s\<close> holds between two iterations of the inner loop over the
  group at level \<open>v\<close> in every run, wrapped or not: the log satisfies the leveling
  invariant, and a machine set that has not been incremented yet started at \<open>v\<close> or above
  and waits in \<open>todo\<close> or in the group of its starting count. \<open>pending_head\<close> is its
  form at the head of the outer loop.\<close>

definition pending_inv :: "groups \<Rightarrow> int \<Rightarrow> string list \<Rightarrow> balancer \<Rightarrow> bool" where
  "pending_inv g v todo s \<longleftrightarrow>
     leveling g (increments s) \<and>
     (\<forall>(q, k) \<in> set (pools_of g).
        q \<notin> fst ` set (increments s) \<longrightarrow>
        v \<le> k \<and> (k = v \<longrightarrow> q \<in> set todo) \<and>
        (v < k \<longrightarrow> q \<in> set (Mapping.lookup_default [] (machineSetReplicas s) k)))"

definition pending_head :: "groups \<Rightarrow> balancer \<Rightarrow> bool" where
  "pending_head g s \<longleftrightarrow>
     index s < length (keys s) \<and> 0 < desiredWorkerCount s \<and>
     MinInt \<le> keys s ! index s \<and> keys s ! index s \<le> MaxInt \<and>
     Mapping.lookup_default [] (machineSetReplicas s) (keys s ! index s) \<noteq> [] \<and>
     pending_inv g (keys s ! index s)
       (Mapping.lookup_default [] (machineSetReplicas s) (keys s ! index s)) s"

text \<open>Inputs of the scenarios.\<close>

definition scenario_A :: groups where
  "scenario_A = Mapping.update 2 [''A'', ''B''] Mapping.empty"

definition plan_A :: plan where
  "plan_A = Mapping.of_alist
     [(''A'', \<lparr>prevReplicas = 2, currentReplicas = 4\<rparr>),
      (''B'', \<lparr>prevReplicas = 2, currentReplicas = 3\<rparr>)]"

definition one_pool :: groups where
  "one_pool = Mapping.update 2 [''A''] Mapping.empty"

definition one_level :: groups where
  "one_level = Mapping.update 3 [''A'', ''B''] Mapping.empty"







section \<open>Node Readiness Poller: \<open>waitForNodes\<close>\<close>

text \<open>The fields of \<open>v1.Node\<close> and \<open>v1.NodeCondition\<close> that the code reads, and the
  two constants of \<open>k8s.io/api/core/v1\<close> it compares them with.\<close>

record NodeCondition =
  Type :: string
  Status :: string

record Node =
  Name :: string
  Conditions :: "NodeCondition list"

definition NodeReady :: string where
  "NodeReady = ''Ready''"

definition ConditionTrue :: string where
  "ConditionTrue = ''True''"

fun range_conditions :: "NodeCondition list \<Rightarrow> bool" where
  "range_conditions [] = False"
| "range_conditions (condition # rest) =
     (if Type condition = NodeReady \<and> Status condition = ConditionTrue then True
      else range_conditions rest)"

definition isNodeReady :: "Node \<Rightarrow> bool" where
  "isNodeReady node = range_conditions (Conditions node)"

text \<open>What \<open>clientset.CoreV1().Nodes().List\<close> answers at one moment: an error or the
  items.\<close>

type_synonym listing = "string + Node list"

fun range_items :: "Node list \<Rightarrow> bool" where
  "range_items [] = True"
| "range_items (node # rest) = (if \<not> isNodeReady node then False else range_items rest)"

text \<open>Lines 69--83: the condition function handed to the poller; \<open>Inl err\<close> is
  \<open>(false, err)\<close>, \<open>Inr done\<close> is \<open>(done, nil)\<close>.\<close>

definition nodes_condition :: "listing \<Rightarrow> string + bool" where
  "nodes_condition l = (case l of Inl err \<Rightarrow> Inl err | Inr items \<Rightarrow> Inr (range_items items))"

datatype poll_error = Timeout | Query string

text \<open>Modelled from the spec: \<open>wait.PollUntilContextTimeout\<close> belongs to
  \<open>k8s.io/apimachinery\<close> and is not among the sources. The spec (4.4) says: it fires an
  immediate first check, then re-checks every interval until the condition is true
  (success) or the timeout elapses (Timeout); an error of the condition aborts at once.
  Time is abstracted to the checks: \<open>now\<close> is what the condition sees at the immediate
  check and \<open>ticks\<close> what it sees at each tick of the interval that falls before the
  deadline. The result is the number of ticks waited for and the error (\<open>None\<close> is
  \<open>nil\<close>).\<close>

fun poll_ticks :: "('w \<Rightarrow> string + bool) \<Rightarrow> 'w list \<Rightarrow> nat \<Rightarrow> nat \<times> poll_error option" where
  "poll_ticks condition [] n = (n, Some Timeout)"
| "poll_ticks condition (w # ws) n =
     (case condition w of
        Inl err \<Rightarrow> (Suc n, Some (Query err))
      | Inr done \<Rightarrow> if done then (Suc n, None) else poll_ticks condition ws (Suc n))"

definition PollUntilContextTimeout ::
  "bool \<Rightarrow> ('w \<Rightarrow> string + bool) \<Rightarrow> 'w \<Rightarrow> 'w list \<Rightarrow> nat \<times> poll_error option" where
  "PollUntilContextTimeout immediate condition now ticks =
     (if immediate
      then (case condition now of
              Inl err \<Rightarrow> (0, Some (Query err))
            | Inr done \<Rightarrow> if done then (0, None) else poll_ticks condition ticks 0)
      else poll_ticks condition ticks 0)"

text \<open>Lines 68--84.\<close>

definition waitForNodes :: "listing \<Rightarrow> listing list \<Rightarrow> nat \<times> poll_error option" where
  "waitForNodes now ticks = PollUntilContextTimeout True nodes_condition now ticks"

text \<open>\<open>all_ready l\<close>: the listing succeeded and every listed node is ready;
  \<open>some_unready l\<close>: it succeeded and a listed node is not ready.\<close>

definition all_ready :: "listing \<Rightarrow> bool" where
  "all_ready l = (case l of Inl err \<Rightarrow> False | Inr items \<Rightarrow> list_all isNodeReady items)"

definition some_unready :: "listing \<Rightarrow> bool" where
  "some_unready l = (case l of Inl err \<Rightarrow> False | Inr items \<Rightarrow> list_ex (\<lambda>n. \<not> isNodeReady n) items)"

definition ready_node :: "string \<Rightarrow> Node" where
  "ready_node n = \<lparr>Name = n, Conditions = [\<lparr>Type = ''Ready'', Status = ''True''\<rparr>]\<rparr>"

definition unready_node :: "string \<Rightarrow> Node" where
  "unready_node n = \<lparr>Name = n, Conditions = [\<lparr>Type = ''Ready'', Status = ''False''\<rparr>]\<rparr>"

section \<open>Bounded Retry Driver: the retry loop of the shell script\<close>

definition MAX_RETRIES :: nat where
  "MAX_RETRIES = 126"

definition WAIT_TIMES :: "nat list" where
  "WAIT_TIMES = [1, 2, 3, 5, 10, 20, 30]"

text \<open>\<open>counter\<close> is the script's variable. The other two fields are ghost state:
  \<open>slept\<close> adds up the seconds given to \<open>sleep\<close>, \<open>tried\<close> counts the runs of
  \<open>COMMAND\<close>.\<close>

record retry =
  counter :: nat
  slept :: nat
  tried :: nat

datatype ending = Break | Exit1 | Exhausted

text \<open>Lines 89--104: \<open>for attempt in $(seq 1 $MAX_RETRIES)\<close>. \<open>COMMAND n\<close> is the exit
  status (true for 0) of the \<open>n\<close>-th run of the probe on this VM. \<open>Exhausted\<close> is the
  loop running out of attempts, which the \<open>exit 1\<close> of the last attempt precludes.\<close>

fun for_attempt :: "(nat \<Rightarrow> bool) \<Rightarrow> nat list \<Rightarrow> retry \<Rightarrow> ending \<times> retry" where
  "for_attempt COMMAND [] r = (Exhausted, r)"
| "for_attempt COMMAND (attempt # rest) r =
     (let r1 = r\<lparr>tried := tried r + 1\<rparr>
      in if COMMAND (tried r1) then (Break, r1)
         else if attempt < MAX_RETRIES
         then (let wait_time = (if counter r1 < length WAIT_TIMES
                                then WAIT_TIMES ! counter r1
                                else last WAIT_TIMES)
               in for_attempt COMMAND rest
                    (r1\<lparr>slept := slept r1 + wait_time, counter := counter r1 + 1\<rparr>))
         else (Exit1, r1))"

text \<open>Lines 88--104: the body of \<open>for vm in ${VMS}\<close> for one VM.\<close>

definition retry_vm :: "(nat \<Rightarrow> bool) \<Rightarrow> ending \<times> retry" where
  "retry_vm COMMAND =
     for_attempt COMMAND [1 ..< Suc MAX_RETRIES] \<lparr>counter = 0, slept = 0, tried = 0\<rparr>"

text \<open>The spec's backoff of attempt index \<open>i\<close>: \<open>backoff[min(i, len(backoff) - 1)]\<close>.\<close>

definition backoff :: "nat \<Rightarrow> nat" where
  "backoff i = WAIT_TIMES ! min i (length WAIT_TIMES - 1)"

section \<open>Scaling Orchestrator: \<open>OrchestrateWorkload\<close>\<close>

text \<open>\<open>OrchestrateWorkload\<close> is straight-line code over collaborators that are not
  among the sources. The model is the sequence of calls it issues, each collaborator taken
  to return (\<open>log.Error\<close> of logrus writes an entry and returns; the function calls
  neither \<open>log.Fatal\<close> nor \<open>panic\<close>, and has no \<open>return\<close> before its end); the one
  result the code branches on besides \<open>scaleConfig.GC\<close> is the error of
  \<open>measurements.Stop\<close>, a parameter here (\<open>None\<close> is \<open>nil\<close>).\<close>

datatype call =
    NewKubeClientProvider | ClientSet | GetMachineClient | GetMachineSets | GetMachines
  | SetupMetrics | MeasurementsStart | AdjustMachineSets | EditMachineSets bool
  | MeasurementsStop | DiscardPreviousMachines | FinalizeMetrics
  | LogInfo string | LogError string

definition OrchestrateWorkload :: "bool \<Rightarrow> string option \<Rightarrow> call list" where
  "OrchestrateWorkload gc stop_err =
     [NewKubeClientProvider, ClientSet, GetMachineClient, GetMachineSets, GetMachines,
      SetupMetrics, MeasurementsStart, AdjustMachineSets,
      LogInfo ''Updating machinessets evenly to reach desired count'',
      EditMachineSets True, MeasurementsStop] @
     (case stop_err of None \<Rightarrow> [] | Some err \<Rightarrow> [LogError err]) @
     [GetMachines, DiscardPreviousMachines, FinalizeMetrics] @
     (if gc then [LogInfo ''Restoring machine sets to previous state'', EditMachineSets False]
      else [])"

section \<open>Properties of the balancer\<close>

lemmas run_simps =
  adjustMachineSets_def balance_def initial_def outer_loop.simps loop_body_def
  range_machineSets.simps increment_def Store_def trim_group_def insert_key_def push_key_def
  Let_def lookup_update' lookup_default_def wrap_def MinInt_def MaxInt_def

subsection \<open>Wrap-around\<close>

lemma wrap_id: "MinInt \<le> x \<Longrightarrow> x \<le> MaxInt \<Longrightarrow> wrap x = x"
  by (simp add: wrap_def MinInt_def MaxInt_def)

lemma wrap_range: "MinInt \<le> wrap x \<and> wrap x \<le> MaxInt"
proof -
  have "0 \<le> (x - MinInt) mod 18446744073709551616"
    "(x - MinInt) mod 18446744073709551616 < 18446744073709551616"
    by simp_all
  then show ?thesis by (simp add: wrap_def MinInt_def MaxInt_def)
qed

lemma wrap_succ: "MinInt \<le> v \<Longrightarrow> v < MaxInt \<Longrightarrow> wrap (v + 1) = v + 1"
  by (rule wrap_id) simp_all

lemma wrap_succ_neq:
  assumes "MinInt \<le> v" and "v \<le> MaxInt"
  shows "wrap (v + 1) \<noteq> v"
proof (cases "v < MaxInt")
  case True
  with assms show ?thesis by (simp add: wrap_succ)
next
  case False
  with assms have "v = MaxInt" by simp
  then show ?thesis by (simp add: wrap_def MinInt_def MaxInt_def)
qed

subsection \<open>Facts about well-formed groupings\<close>

lemma group_of_missing_key: "k \<notin> Mapping.keys g \<Longrightarrow> Mapping.lookup_default [] g k = []"
  by (simp add: lookup_default_def keys_dom_lookup domIff)

lemma group_nonempty_lookup:
  "Mapping.lookup_default [] g k \<noteq> [] \<Longrightarrow> Mapping.lookup g k = Some (Mapping.lookup_default [] g k)"
  by (simp add: lookup_default_def split: option.splits)

lemma names_of_pools:
  "map fst (pools_of g) = concat (map (Mapping.lookup_default [] g) (Mapping.ordered_keys g))"
proof -
  have "map fst (concat (map (\<lambda>k. map (\<lambda>m. (m, k)) (f k)) ks)) = concat (map f ks)"
    for f :: "int \<Rightarrow> string list" and ks
    by (induction ks) (simp_all add: comp_def)
  then show ?thesis by (simp add: pools_of_def)
qed

lemma in_pools_of:
  assumes "finite (Mapping.keys g)"
  shows "(m, k) \<in> set (pools_of g) \<longleftrightarrow> m \<in> set (Mapping.lookup_default [] g k)"
proof
  assume "(m, k) \<in> set (pools_of g)"
  then show "m \<in> set (Mapping.lookup_default [] g k)"
    by (auto simp: pools_of_def)
next
  assume m: "m \<in> set (Mapping.lookup_default [] g k)"
  have "k \<in> Mapping.keys g"
  proof (rule ccontr)
    assume "k \<notin> Mapping.keys g"
    then have "Mapping.lookup_default [] g k = []" by (rule group_of_missing_key)
    with m show False by simp
  qed
  then have "k \<in> set (Mapping.ordered_keys g)"
    using assms by simp
  with m show "(m, k) \<in> set (pools_of g)"
    by (auto simp: pools_of_def)
qed

lemma start_of_pool:
  assumes "wf_groups g"
  shows "map_of (pools_of g) m = Some k \<longleftrightarrow> m \<in> set (Mapping.lookup_default [] g k)"
proof -
  from assms have d: "distinct (map fst (pools_of g))" and f: "finite (Mapping.keys g)"
    by (simp_all add: wf_groups_def)
  from d have "map_of (pools_of g) m = Some k \<longleftrightarrow> (m, k) \<in> set (pools_of g)"
    by simp
  with in_pools_of[OF f] show ?thesis by simp
qed

lemma group_distinct:
  assumes "wf_groups g"
  shows "distinct (Mapping.lookup_default [] g k)"
proof (cases "k \<in> Mapping.keys g")
  case True
  from assms have d: "distinct (concat (map (Mapping.lookup_default [] g) (Mapping.ordered_keys g)))"
    and f: "finite (Mapping.keys g)"
    by (simp_all add: wf_groups_def names_of_pools)
  from True f have "Mapping.lookup_default [] g k \<in> set (map (Mapping.lookup_default [] g) (Mapping.ordered_keys g))"
    by simp
  with d show ?thesis by (simp add: distinct_concat_iff)
next
  case False
  then show ?thesis by (simp add: group_of_missing_key)
qed

lemma group_of_key_nonempty:
  "wf_groups g \<Longrightarrow> k \<in> Mapping.keys g \<Longrightarrow> Mapping.lookup_default [] g k \<noteq> []"
  by (simp add: wf_groups_def)

lemma start_is_key:
  assumes "wf_groups g" and "map_of (pools_of g) m = Some k"
  shows "k \<in> Mapping.keys g"
proof (rule ccontr)
  assume "k \<notin> Mapping.keys g"
  then have "Mapping.lookup_default [] g k = []" by (rule group_of_missing_key)
  with start_of_pool[OF assms(1), of m k] assms(2) show False by simp
qed

lemma increment_result:
  "\<exists>s'. increment v i m s = Inr s' \<and>
     (\<forall>m'. Mapping.lookup (machineSetsToEdit s') m' =
        (if m' = m then Some (bumped v (Mapping.lookup (machineSetsToEdit s) m))
         else Mapping.lookup (machineSetsToEdit s) m')) \<and>
     Mapping.keys (machineSetsToEdit s') = insert m (Mapping.keys (machineSetsToEdit s)) \<and>
     machineSetReplicas s' =
       Mapping.update (wrap (v + 1))
         (Mapping.lookup_default [] (machineSetReplicas s) (wrap (v + 1)) @ [m])
         (machineSetReplicas s) \<and>
     lastIndex s' = i \<and> desiredWorkerCount s' = desiredWorkerCount s - 1 \<and> modified s' \<and>
     increments s' = increments s @ [(m, v)] \<and> keys s' = keys s \<and> index s' = index s"
  by (cases "Mapping.lookup (machineSetsToEdit s) m")
     (simp_all add: increment_def Store_def bumped_def Let_def lookup_update')

lemma plan_total_bump:
  assumes fin: "finite (Mapping.keys P)"
    and look: "\<And>m'. Mapping.lookup P' m' = (if m' = m then Some y else Mapping.lookup P m')"
    and keys: "Mapping.keys P' = insert m (Mapping.keys P)"
    and one: "currentReplicas y - prevReplicas y =
                (case Mapping.lookup P m of None \<Rightarrow> 0
                 | Some x \<Rightarrow> currentReplicas x - prevReplicas x) + 1"
  shows "plan_total P' = plan_total P + 1"
proof -
  let ?f = "\<lambda>Q m'. case Mapping.lookup Q m' of None \<Rightarrow> (0::int)
                     | Some info \<Rightarrow> currentReplicas info - prevReplicas info"
  let ?K = "Mapping.keys P"
  have rest: "sum (?f P') (?K - {m}) = sum (?f P) (?K - {m})"
    by (rule sum.cong) (simp_all add: look)
  have new: "plan_total P' = ?f P' m + sum (?f P) (?K - {m})"
    unfolding plan_total_def keys using fin rest by (simp add: sum.insert_remove)
  have old: "plan_total P = ?f P m + sum (?f P) (?K - {m})"
  proof (cases "m \<in> ?K")
    case True
    then show ?thesis unfolding plan_total_def using fin by (simp add: sum.remove)
  next
    case False
    then have "Mapping.lookup P m = None" by (simp add: keys_dom_lookup domIff)
    with False show ?thesis unfolding plan_total_def by simp
  qed
  have "?f P' m = ?f P m + 1" using one by (simp add: look)
  with new old show ?thesis by simp
qed

lemma leveling_snoc:
  assumes "leveling g tr"
    and below: "\<And>q k. (q, k) \<in> set (pools_of g) \<Longrightarrow> k < v \<Longrightarrow> q \<in> fst ` set tr"
  shows "leveling g (tr @ [(m, v)])"
  unfolding leveling_def
proof (intro allI impI)
  fix j
  assume j: "j < length (tr @ [(m, v)])"
    and again: "fst ((tr @ [(m, v)]) ! j) \<in> fst ` set (take j (tr @ [(m, v)]))"
  show "\<forall>(q, k) \<in> set (pools_of g). k < snd ((tr @ [(m, v)]) ! j) \<longrightarrow>
          q \<in> fst ` set (take j (tr @ [(m, v)]))"
  proof (cases "j < length tr")
    case True
    then have "(tr @ [(m, v)]) ! j = tr ! j" "take j (tr @ [(m, v)]) = take j tr"
      by (simp_all add: nth_append)
    with assms(1) True again show ?thesis
      unfolding leveling_def by simp
  next
    case False
    with j have "j = length tr" by simp
    then have "(tr @ [(m, v)]) ! j = (m, v)" "take j (tr @ [(m, v)]) = tr"
      by simp_all
    with below show ?thesis by auto
  qed
qed

lemma level_invD:
  assumes "level_inv g D0 v todo s"
  shows "finite (Mapping.keys (machineSetsToEdit s))"
    and "\<And>m x. Mapping.lookup (machineSetsToEdit s) m = Some x \<Longrightarrow>
        map_of (pools_of g) m = Some (prevReplicas x) \<and>
        prevReplicas x < currentReplicas x \<and> currentReplicas x \<le> v + 1"
    and "\<And>m l. final_replicas g (machineSetsToEdit s) m = Some l \<Longrightarrow>
        v \<le> l \<and> (l = v \<longrightarrow> m \<in> set todo)"
    and "distinct todo"
    and "\<And>m. m \<in> set todo \<Longrightarrow> final_replicas g (machineSetsToEdit s) m = Some v"
    and "distinct (Mapping.lookup_default [] (machineSetReplicas s) (v + 1))"
    and "set (Mapping.lookup_default [] (machineSetReplicas s) (v + 1)) =
       {m. final_replicas g (machineSetsToEdit s) m = Some (v + 1)}"
    and "\<And>k. v + 1 < k \<Longrightarrow> Mapping.lookup (machineSetReplicas s) k = Mapping.lookup g k"
    and "plan_total (machineSetsToEdit s) + desiredWorkerCount s = D0"
    and "fst ` set (increments s) = Mapping.keys (machineSetsToEdit s)"
    and "leveling g (increments s)"
  using assms unfolding level_inv_def by simp_all

lemma level_invI:
  assumes "finite (Mapping.keys (machineSetsToEdit s))"
    and "\<forall>m x. Mapping.lookup (machineSetsToEdit s) m = Some x \<longrightarrow>
        map_of (pools_of g) m = Some (prevReplicas x) \<and>
        prevReplicas x < currentReplicas x \<and> currentReplicas x \<le> v + 1"
    and "\<forall>m l. final_replicas g (machineSetsToEdit s) m = Some l \<longrightarrow>
        v \<le> l \<and> (l = v \<longrightarrow> m \<in> set todo)"
    and "distinct todo"
    and "\<forall>m \<in> set todo. final_replicas g (machineSetsToEdit s) m = Some v"
    and "distinct (Mapping.lookup_default [] (machineSetReplicas s) (v + 1))"
    and "set (Mapping.lookup_default [] (machineSetReplicas s) (v + 1)) =
       {m. final_replicas g (machineSetsToEdit s) m = Some (v + 1)}"
    and "\<forall>k. v + 1 < k \<longrightarrow> Mapping.lookup (machineSetReplicas s) k = Mapping.lookup g k"
    and "plan_total (machineSetsToEdit s) + desiredWorkerCount s = D0"
    and "fst ` set (increments s) = Mapping.keys (machineSetsToEdit s)"
    and "leveling g (increments s)"
  shows "level_inv g D0 v todo s"
  unfolding level_inv_def using assms by (intro conjI)

lemma increment_keeps_level:
  assumes wf: "wf_groups g" and inv: "level_inv g D0 v (m # todo) s"
    and nw: "wrap (v + 1) = v + 1" and run: "increment v i m s = Inr s'"
  shows "level_inv g D0 v todo s'"
proof -
  let ?P = "machineSetsToEdit s"
  let ?y = "bumped v (Mapping.lookup ?P m)"
  from increment_result[of v i m s, unfolded nw] run have
    look: "\<And>m'. Mapping.lookup (machineSetsToEdit s') m' =
                 (if m' = m then Some ?y else Mapping.lookup ?P m')"
    and dom: "Mapping.keys (machineSetsToEdit s') = insert m (Mapping.keys ?P)"
    and msr: "machineSetReplicas s' =
       Mapping.update (v + 1) (Mapping.lookup_default [] (machineSetReplicas s) (v + 1) @ [m])
         (machineSetReplicas s)"
    and rest: "lastIndex s' = i" "desiredWorkerCount s' = desiredWorkerCount s - 1" "modified s'"
      "keys s' = keys s" "index s' = index s"
    and log: "increments s' = increments s @ [(m, v)]"
    by simp_all
  let ?P' = "machineSetsToEdit s'"
  note fin = level_invD(1)[OF inv] and entries = level_invD(2)[OF inv]
    and floor = level_invD(3)[OF inv] and dist = level_invD(4)[OF inv]
    and todo = level_invD(5)[OF inv] and up_dist = level_invD(6)[OF inv]
    and up_set = level_invD(7)[OF inv] and above = level_invD(8)[OF inv]
    and total = level_invD(9)[OF inv] and logged = level_invD(10)[OF inv]
    and lev = level_invD(11)[OF inv]
  have at_v: "final_replicas g ?P m = Some v" using todo by simp
  have y: "map_of (pools_of g) m = Some (prevReplicas ?y)" "prevReplicas ?y < currentReplicas ?y"
    "currentReplicas ?y = v + 1"
    "currentReplicas ?y - prevReplicas ?y =
       (case Mapping.lookup ?P m of None \<Rightarrow> 0 | Some x \<Rightarrow> currentReplicas x - prevReplicas x) + 1"
  proof -
    show "currentReplicas ?y = v + 1"
      by (simp add: bumped_def nw split: option.splits)
    show "map_of (pools_of g) m = Some (prevReplicas ?y)"
      using at_v entries[of m] by (auto simp: bumped_def final_replicas_def split: option.splits)
    show "prevReplicas ?y < currentReplicas ?y"
      using at_v entries[of m] by (auto simp: bumped_def nw final_replicas_def split: option.splits)
    show "currentReplicas ?y - prevReplicas ?y =
       (case Mapping.lookup ?P m of None \<Rightarrow> 0 | Some x \<Rightarrow> currentReplicas x - prevReplicas x) + 1"
      using at_v by (auto simp: bumped_def nw final_replicas_def split: option.splits)
  qed
  have final': "final_replicas g ?P' m' = (if m' = m then Some (v + 1) else final_replicas g ?P m')" for m'
    by (simp add: final_replicas_def look y(3))
  have up': "Mapping.lookup_default [] (machineSetReplicas s') (v + 1) =
               Mapping.lookup_default [] (machineSetReplicas s) (v + 1) @ [m]"
    by (simp add: msr lookup_default_update)
  have m_not_up: "m \<notin> set (Mapping.lookup_default [] (machineSetReplicas s) (v + 1))"
    using up_set at_v by simp
  have c1: "finite (Mapping.keys ?P')" using fin dom by simp
  have c2: "\<forall>m' x. Mapping.lookup ?P' m' = Some x \<longrightarrow>
        map_of (pools_of g) m' = Some (prevReplicas x) \<and>
        prevReplicas x < currentReplicas x \<and> currentReplicas x \<le> v + 1"
    using entries y by (auto simp: look split: if_splits)
  have c3: "\<forall>m' l. final_replicas g ?P' m' = Some l \<longrightarrow> v \<le> l \<and> (l = v \<longrightarrow> m' \<in> set todo)"
    using floor by (auto simp: final' split: if_splits)
  have c4: "distinct todo" using dist by simp
  have c5: "\<forall>m' \<in> set todo. final_replicas g ?P' m' = Some v"
    using todo dist by (auto simp: final')
  have c6: "distinct (Mapping.lookup_default [] (machineSetReplicas s') (v + 1))"
    using up_dist m_not_up by (simp add: up')
  have c7: "set (Mapping.lookup_default [] (machineSetReplicas s') (v + 1)) =
       {m. final_replicas g ?P' m = Some (v + 1)}"
    using up_set at_v by (auto simp: up' final')
  have c8: "\<forall>k. v + 1 < k \<longrightarrow> Mapping.lookup (machineSetReplicas s') k = Mapping.lookup g k"
    using above by (simp add: msr)
  have "plan_total ?P' = plan_total ?P + 1"
    by (rule plan_total_bump[OF fin look dom y(4)])
  then have c9: "plan_total ?P' + desiredWorkerCount s' = D0"
    using total rest(2) by simp
  have c10: "fst ` set (increments s') = Mapping.keys ?P'"
    using logged by (simp add: log dom)
  have "q \<in> fst ` set (increments s)" if "(q, k) \<in> set (pools_of g)" "k < v" for q k
  proof (rule ccontr)
    assume "q \<notin> fst ` set (increments s)"
    then have "Mapping.lookup ?P q = None"
      using logged by (simp add: keys_dom_lookup domIff)
    moreover from wf that(1) have "map_of (pools_of g) q = Some k"
      by (simp add: wf_groups_def)
    ultimately have "final_replicas g ?P q = Some k"
      by (simp add: final_replicas_def)
    with floor[of q k] that(2) show False by simp
  qed
  then have c11: "leveling g (increments s')"
    unfolding log by (rule leveling_snoc[OF lev])
  show "level_inv g D0 v todo s'"
    by (rule level_invI[OF c1 c2 c3 c4 c5 c6 c7 c8 c9 c10 c11])
qed

lemma range_invariant:
  assumes step: "\<forall>m todo s i s'. I (m # todo) s \<longrightarrow> increment v i m s = Inr s' \<longrightarrow> I todo s'"
    and inv: "I todo s"
    and n: "n = min (length todo) (nat (desiredWorkerCount s))"
  shows "\<exists>s'. range_machineSets v i todo s = Inr s' \<and> I (drop n todo) s' \<and>
           desiredWorkerCount s' = desiredWorkerCount s - int n \<and>
           keys s' = keys s \<and> index s' = index s \<and>
           (n = 0 \<longrightarrow> s' = s) \<and>
           (0 < n \<longrightarrow> lastIndex s' = i + n - 1 \<and> modified s' \<and>
              Mapping.lookup_default [] (machineSetReplicas s') (wrap (v + 1)) \<noteq> [])"
  using inv n
proof (induction todo arbitrary: s i n)
  case Nil
  then show ?case by simp
next
  case (Cons m todo)
  show ?case
  proof (cases "0 < desiredWorkerCount s")
    case False
    with Cons.prems show ?thesis by simp
  next
    case True
    from increment_result[of v i m s] obtain s1 where
      one: "increment v i m s = Inr s1"
      and groups1: "machineSetReplicas s1 =
         Mapping.update (wrap (v + 1))
           (Mapping.lookup_default [] (machineSetReplicas s) (wrap (v + 1)) @ [m])
           (machineSetReplicas s)"
      and s1: "lastIndex s1 = i" "desiredWorkerCount s1 = desiredWorkerCount s - 1" "modified s1"
        "keys s1 = keys s" "index s1 = index s"
      by blast
    have inv1: "I todo s1" using step Cons.prems(1) one by blast
    have up1: "Mapping.lookup_default [] (machineSetReplicas s1) (wrap (v + 1)) \<noteq> []"
      by (simp add: groups1 lookup_default_update)
    define n1 where "n1 = min (length todo) (nat (desiredWorkerCount s1))"
    have nn: "n = Suc n1"
      using True Cons.prems(2) s1(2) unfolding n1_def
      by (simp add: min_def nat_diff_distrib' split: if_splits)
    from Cons.IH[OF inv1 n1_def, where i = "Suc i"] obtain s' where
      run: "range_machineSets v (Suc i) todo s1 = Inr s'"
      and inv': "I (drop n1 todo) s'"
      and d': "desiredWorkerCount s' = desiredWorkerCount s1 - int n1"
      and k': "keys s' = keys s1" "index s' = index s1"
      and zero: "n1 = 0 \<longrightarrow> s' = s1"
      and pos: "0 < n1 \<longrightarrow> lastIndex s' = Suc i + n1 - 1 \<and> modified s' \<and>
              Mapping.lookup_default [] (machineSetReplicas s') (wrap (v + 1)) \<noteq> []"
      by blast
    have whole: "range_machineSets v i (m # todo) s = Inr s'"
      using True one run by simp
    have last: "lastIndex s' = i + n - 1 \<and> modified s' \<and>
              Mapping.lookup_default [] (machineSetReplicas s') (wrap (v + 1)) \<noteq> []"
    proof (cases "n1 = 0")
      case True
      with zero s1 up1 nn show ?thesis by simp
    next
      case False
      with pos nn show ?thesis by simp
    qed
    from whole inv' d' k' s1 last nn show ?thesis by simp
  qed
qed

lemma level_next:
  assumes wf: "wf_groups g" and inv: "level_inv g D0 u [] s"
  shows "level_inv g D0 (u + 1) (Mapping.lookup_default [] (machineSetReplicas s) (u + 1)) s"
proof -
  let ?P = "machineSetsToEdit s"
  note fin = level_invD(1)[OF inv] and entries = level_invD(2)[OF inv]
    and floor = level_invD(3)[OF inv]
    and up_dist = level_invD(6)[OF inv]
    and up_set = level_invD(7)[OF inv] and above = level_invD(8)[OF inv]
    and total = level_invD(9)[OF inv] and logged = level_invD(10)[OF inv]
    and lev = level_invD(11)[OF inv]
  have c2: "\<forall>m x. Mapping.lookup ?P m = Some x \<longrightarrow>
        map_of (pools_of g) m = Some (prevReplicas x) \<and>
        prevReplicas x < currentReplicas x \<and> currentReplicas x \<le> u + 1 + 1"
    using entries by fastforce
  have c3: "\<forall>m l. final_replicas g ?P m = Some l \<longrightarrow>
        u + 1 \<le> l \<and> (l = u + 1 \<longrightarrow> m \<in> set (Mapping.lookup_default [] (machineSetReplicas s) (u + 1)))"
  proof (intro allI impI)
    fix m l assume l: "final_replicas g ?P m = Some l"
    from floor[OF l] have "u \<le> l" "l \<noteq> u" by auto
    then have "u + 1 \<le> l" by simp
    moreover have "l = u + 1 \<longrightarrow> m \<in> set (Mapping.lookup_default [] (machineSetReplicas s) (u + 1))"
      using l up_set by simp
    ultimately show "u + 1 \<le> l \<and> (l = u + 1 \<longrightarrow> m \<in> set (Mapping.lookup_default [] (machineSetReplicas s) (u + 1)))"
      by simp
  qed
  have c5: "\<forall>m \<in> set (Mapping.lookup_default [] (machineSetReplicas s) (u + 1)).
              final_replicas g ?P m = Some (u + 1)"
    using up_set by simp
  have same: "Mapping.lookup_default [] (machineSetReplicas s) (u + 1 + 1) =
                Mapping.lookup_default [] g (u + 1 + 1)"
    using above[of "u + 1 + 1"] by (simp add: lookup_default_def)
  have c6: "distinct (Mapping.lookup_default [] (machineSetReplicas s) (u + 1 + 1))"
    unfolding same by (rule group_distinct[OF wf])
  have c7: "set (Mapping.lookup_default [] (machineSetReplicas s) (u + 1 + 1)) =
       {m. final_replicas g ?P m = Some (u + 1 + 1)}"
  proof -
    have "m \<in> set (Mapping.lookup_default [] g (u + 1 + 1)) \<longleftrightarrow>
            final_replicas g ?P m = Some (u + 1 + 1)" for m
    proof (cases "Mapping.lookup ?P m")
      case None
      then show ?thesis
        using start_of_pool[OF wf, of m "u + 1 + 1"] by (simp add: final_replicas_def)
    next
      case (Some x)
      from entries[OF Some] have "map_of (pools_of g) m = Some (prevReplicas x)"
        "prevReplicas x < u + 1 + 1" "currentReplicas x \<noteq> u + 1 + 1" by auto
      with Some show ?thesis
        using start_of_pool[OF wf, of m "u + 1 + 1"] by (simp add: final_replicas_def)
    qed
    then show ?thesis unfolding same by blast
  qed
  have c8: "\<forall>k. u + 1 + 1 < k \<longrightarrow> Mapping.lookup (machineSetReplicas s) k = Mapping.lookup g k"
    using above by simp
  show ?thesis
    by (rule level_invI[OF fin c2 c3 up_dist c5 c6 c7 c8 total logged lev])
qed

lemma level_inv_modified [simp]:
  "level_inv g D0 v todo (s\<lparr>modified := b\<rparr>) = level_inv g D0 v todo s"
  by (simp add: level_inv_def)

lemma level_inv_keys [simp]:
  "level_inv g D0 v todo (s\<lparr>keys := ks\<rparr>) = level_inv g D0 v todo s"
  by (simp add: level_inv_def)

lemma level_inv_index [simp]:
  "level_inv g D0 v todo (s\<lparr>index := j\<rparr>) = level_inv g D0 v todo s"
  by (simp add: level_inv_def)

lemma level_inv_groups:
  assumes "\<And>k. v < k \<Longrightarrow> Mapping.lookup M k = Mapping.lookup (machineSetReplicas s) k"
  shows "level_inv g D0 v todo (s\<lparr>machineSetReplicas := M\<rparr>) = level_inv g D0 v todo s"
proof -
  have "Mapping.lookup_default [] M (v + 1) =
          Mapping.lookup_default [] (machineSetReplicas s) (v + 1)"
    using assms[of "v + 1"] by (simp add: lookup_default_def)
  moreover have "(\<forall>k. v + 1 < k \<longrightarrow> Mapping.lookup M k = Mapping.lookup g k) \<longleftrightarrow>
      (\<forall>k. v + 1 < k \<longrightarrow> Mapping.lookup (machineSetReplicas s) k = Mapping.lookup g k)"
    using assms by auto
  ultimately show ?thesis by (simp add: level_inv_def)
qed

lemma push_sorted:
  fixes K :: "int list"
  assumes st: "sorted_wrt (<) K" and i: "i < length K"
    and gap: "Suc i < length K \<longrightarrow> K ! i + 1 \<noteq> K ! Suc i"
  defines "K' \<equiv> take (i + 1) K @ ([K ! i + 1] @ drop (i + 1) K)"
  shows "sorted_wrt (<) K'" and "Suc i < length K'" and "K' ! Suc i = K ! i + 1"
    and "K' ! i = K ! i" and "set K \<subseteq> set K'"
proof -
  have before: "x \<le> K ! i" if "x \<in> set (take (i + 1) K)" for x
  proof -
    from that obtain j where j: "j < i + 1" "j < length K" "x = K ! j"
      by (auto simp: in_set_conv_nth)
    show ?thesis
    proof (cases "j = i")
      case True
      with j show ?thesis by simp
    next
      case False
      with j have "j < i" by simp
      with st i have "K ! j < K ! i" by (simp add: sorted_wrt_nth_less)
      with j show ?thesis by simp
    qed
  qed
  have after: "K ! i + 1 < x" if "x \<in> set (drop (i + 1) K)" for x
  proof -
    from that obtain j' where j': "j' < length (drop (i + 1) K)" "x = drop (i + 1) K ! j'"
      by (auto simp: in_set_conv_nth)
    define j where "j = i + 1 + j'"
    have j: "i + 1 \<le> j" "j < length K" "x = K ! j"
      using j' i by (simp_all add: j_def)
    have first: "K ! i < K ! Suc i"
      using st j by (simp add: sorted_wrt_nth_less)
    have "K ! Suc i \<le> K ! j"
    proof (cases "j = Suc i")
      case True
      then show ?thesis by simp
    next
      case False
      with j have "Suc i < j" by simp
      then have "K ! Suc i < K ! j"
        using st j(2) by (simp add: sorted_wrt_nth_less)
      then show ?thesis by simp
    qed
    moreover have "K ! i + 1 \<noteq> K ! Suc i" using gap j by simp
    ultimately show ?thesis using first j(3) by simp
  qed
  have "sorted_wrt (<) (take (i + 1) K)" "sorted_wrt (<) (drop (i + 1) K)"
    using st by (simp_all add: sorted_wrt_take sorted_wrt_drop)
  then show "sorted_wrt (<) K'"
    unfolding K'_def using before after by (fastforce simp: sorted_wrt_append)
  show "Suc i < length K'" unfolding K'_def using i by simp
  show "K' ! Suc i = K ! i + 1" unfolding K'_def using i by (simp add: nth_append)
  show "K' ! i = K ! i" unfolding K'_def using i by (simp add: nth_append)
  have "set K = set (take (i + 1) K) \<union> set (drop (i + 1) K)"
    by (metis append_take_drop_id set_append)
  then show "set K \<subseteq> set K'" unfolding K'_def by auto
qed

lemma pushed_keys_sorted:
  fixes K :: "int list"
  assumes st: "sorted_wrt (<) K" and i: "i < length K"
    and K': "K' = (if Suc i < length K \<and> K ! Suc i = K ! i + 1 then K
                   else take (i + 1) K @ ([K ! i + 1] @ drop (i + 1) K))"
  shows "sorted_wrt (<) K' \<and> set K \<subseteq> set K'"
proof (cases "Suc i < length K \<and> K ! Suc i = K ! i + 1")
  case True
  then show ?thesis using st by (simp add: K')
next
  case False
  then have gap: "Suc i < length K \<longrightarrow> K ! i + 1 \<noteq> K ! Suc i"
    by auto
  from False have K'_eq: "K' = take (i + 1) K @ ([K ! i + 1] @ drop (i + 1) K)"
    by (simp only: K' if_False)
  note p = push_sorted[OF st i gap]
  show ?thesis unfolding K'_eq using p(1) p(5) by blast
qed

subsection \<open>The plan only grows\<close>







lemma store_inv_index [simp]: "store_inv c (s\<lparr>index := j\<rparr>) = store_inv c s"
  by (simp add: store_inv_def)


subsection \<open>One iteration of the outer loop\<close>

lemma loop_body_run:
  assumes step: "\<forall>m todo s i s'. I (m # todo) s \<longrightarrow> increment v i m s = Inr s' \<longrightarrow> I todo s'"
    and v: "v = keys s ! index s" and idx: "index s < length (keys s)"
    and pos: "0 < desiredWorkerCount s"
    and xs: "xs = Mapping.lookup_default [] (machineSetReplicas s) v" and ne: "xs \<noteq> []"
    and inv: "I xs (s\<lparr>modified := False\<rparr>)"
  shows "\<exists>s1 n M K'. loop_body s = Inr (s1\<lparr>machineSetReplicas := M, keys := K'\<rparr>) \<and>
           I (drop n xs) s1 \<and> 1 \<le> n \<and> n \<le> length xs \<and>
           desiredWorkerCount s1 = desiredWorkerCount s - int n \<and>
           0 \<le> desiredWorkerCount s1 \<and> (0 < desiredWorkerCount s1 \<longrightarrow> n = length xs) \<and>
           index s1 = index s \<and>
           (\<forall>k. k \<noteq> v \<longrightarrow> Mapping.lookup M k = Mapping.lookup (machineSetReplicas s1) k) \<and>
           Mapping.lookup_default [] (machineSetReplicas s1) (wrap (v + 1)) \<noteq> [] \<and>
           Suc (index s) < length K' \<and> K' ! Suc (index s) = wrap (v + 1) \<and>
           K' = (if Suc (index s) < length (keys s) \<and> keys s ! Suc (index s) = wrap (v + 1)
                 then keys s
                 else take (index s + 1) (keys s) @ ([wrap (v + 1)] @ drop (index s + 1) (keys s)))"
proof -
  define s0 where "s0 = s\<lparr>modified := False\<rparr>"
  define n where "n = min (length xs) (nat (desiredWorkerCount s0))"
  have look: "Mapping.lookup (machineSetReplicas s0) v = Some xs"
    using ne group_nonempty_lookup[of "machineSetReplicas s" v] by (simp add: xs s0_def)
  have inv0: "I xs s0" using inv by (simp add: s0_def)
  from range_invariant[of I v, OF step inv0 n_def, where i = 0] obtain s1 where
    run1: "range_machineSets v 0 xs s0 = Inr s1"
    and inv1: "I (drop n xs) s1"
    and d1: "desiredWorkerCount s1 = desiredWorkerCount s0 - int n"
    and k1: "keys s1 = keys s0" "index s1 = index s0"
    and pos1: "0 < n \<longrightarrow> lastIndex s1 = 0 + n - 1 \<and> modified s1 \<and>
              Mapping.lookup_default [] (machineSetReplicas s1) (wrap (v + 1)) \<noteq> []"
    by blast
  have n1: "1 \<le> n" "n \<le> length xs" "int n \<le> desiredWorkerCount s"
  proof -
    have "Suc 0 \<le> length xs" using ne by (cases xs) simp_all
    moreover have "Suc 0 \<le> nat (desiredWorkerCount s)" using pos by linarith
    ultimately show "1 \<le> n" by (simp add: n_def s0_def)
    show "n \<le> length xs" by (simp add: n_def)
    have "n \<le> nat (desiredWorkerCount s)" by (simp add: n_def s0_def)
    then show "int n \<le> desiredWorkerCount s" using pos by linarith
  qed
  with pos1 have last1: "lastIndex s1 = n - 1" and mod1: "modified s1"
    and up1: "Mapping.lookup_default [] (machineSetReplicas s1) (wrap (v + 1)) \<noteq> []"
    by simp_all
  define M where "M = (if n = length xs then Mapping.delete v (machineSetReplicas s1)
                       else Mapping.update v (drop n xs) (machineSetReplicas s1))"
  define s2 where "s2 = s1\<lparr>machineSetReplicas := M\<rparr>"
  have "int (n - 1) = int (length xs) - 1 \<longleftrightarrow> n = length xs"
    using n1 by auto
  then have trim: "trim_group v xs s1 = Inr s2"
    using n1 by (simp add: trim_group_def last1 s2_def M_def)
  have off: "\<forall>k. k \<noteq> v \<longrightarrow> Mapping.lookup M k = Mapping.lookup (machineSetReplicas s1) k"
    by (simp add: M_def)
  define same where
    "same \<longleftrightarrow> Suc (index s) < length (keys s) \<and> keys s ! Suc (index s) = wrap (v + 1)"
  define K' where "K' = (if same then keys s
       else take (index s + 1) (keys s) @ ([wrap (v + 1)] @ drop (index s + 1) (keys s)))"
  define s3 where "s3 = s2\<lparr>keys := K'\<rparr>"
  have s2_fields: "keys s2 = keys s" "index s2 = index s" "modified s2"
    using k1 mod1 by (simp_all add: s2_def s0_def)
  have ins: "insert_key v s2 = Inr s3"
  proof (cases same)
    case True
    then have "K' = keys s2" by (simp add: K'_def s2_fields)
    then have "s3 = s2" by (simp add: s3_def)
    with True idx show ?thesis
      by (auto simp: insert_key_def s2_fields same_def)
  next
    case False
    then have "s3 = push_key v s2"
      by (simp add: s3_def push_key_def K'_def s2_fields)
    with False idx show ?thesis
      by (auto simp: insert_key_def s2_fields same_def)
  qed
  have body: "loop_body s = Inr (s1\<lparr>machineSetReplicas := M, keys := K'\<rparr>)"
    using look run1 trim ins by (simp add: loop_body_def Let_def s0_def v s3_def s2_def)
  have K: "Suc (index s) < length K' \<and> K' ! Suc (index s) = wrap (v + 1)"
    using idx by (auto simp: K'_def same_def nth_append)
  have all: "0 < desiredWorkerCount s1 \<longrightarrow> n = length xs"
    using d1 unfolding n_def s0_def by (simp add: min_def split: if_splits)
  have d: "desiredWorkerCount s1 = desiredWorkerCount s - int n" "0 \<le> desiredWorkerCount s1"
    using d1 n1 by (simp_all add: s0_def)
  have i1: "index s1 = index s" using k1 by (simp add: s0_def)
  show ?thesis
    using body inv1 n1 d all i1 off up1 K unfolding K'_def same_def by blast
qed

lemma outer_loop_total:
  assumes step: "\<And>s. H s \<Longrightarrow> index s < length (keys s) \<and>
             (\<exists>s'. loop_body s = Inr s' \<and> 0 \<le> desiredWorkerCount s' \<and>
                desiredWorkerCount s' < desiredWorkerCount s \<and>
                (desiredWorkerCount s' = 0 \<longrightarrow> F s') \<and>
                (0 < desiredWorkerCount s' \<longrightarrow> H (s'\<lparr>index := index s' + 1\<rparr>)))"
    and inv: "H s"
  shows "\<exists>t. outer_loop s = Some (Inr t) \<and> F t"
  using inv
proof (induction "nat (desiredWorkerCount s)" arbitrary: s rule: less_induct)
  case less
  from step[OF less.prems] obtain s' where
    idx: "index s < length (keys s)"
    and body: "loop_body s = Inr s'" and d: "0 \<le> desiredWorkerCount s'"
    "desiredWorkerCount s' < desiredWorkerCount s"
    and stop: "desiredWorkerCount s' = 0 \<longrightarrow> F s'"
    and more: "0 < desiredWorkerCount s' \<longrightarrow> H (s'\<lparr>index := index s' + 1\<rparr>)"
    by blast
  show ?case
  proof (cases "desiredWorkerCount s' = 0")
    case True
    have "outer_loop s = Some (Inr s')"
      by (subst outer_loop.simps) (simp add: idx body True)
    with stop True show ?thesis by simp
  next
    case False
    with d have pos: "0 < desiredWorkerCount s'" by simp
    have unfold: "outer_loop s = outer_loop (s'\<lparr>index := index s' + 1\<rparr>)"
      using pos by (subst outer_loop.simps) (simp add: idx body)
    have "nat (desiredWorkerCount (s'\<lparr>index := index s' + 1\<rparr>)) < nat (desiredWorkerCount s)"
      using d by simp
    from less.hyps[OF this] more pos unfold show ?thesis by simp
  qed
qed

subsection \<open>Runs that stay below \<open>MaxInt\<close>\<close>

lemma loop_body_step:
  assumes wf: "wf_groups g" and inv: "outer_inv g D0 s"
  shows "index s < length (keys s) \<and>
         (\<exists>s'. loop_body s = Inr s' \<and> 0 \<le> desiredWorkerCount s' \<and>
           desiredWorkerCount s' < desiredWorkerCount s \<and>
           (desiredWorkerCount s' = 0 \<longrightarrow> finished g D0 s') \<and>
           (0 < desiredWorkerCount s' \<longrightarrow> outer_inv g D0 (s'\<lparr>index := index s' + 1\<rparr>)))"
proof -
  define v where "v = keys s ! index s"
  define xs where "xs = Mapping.lookup_default [] (machineSetReplicas s) v"
  define I where "I = level_inv g D0 v"
  from inv have idx: "index s < length (keys s)" and st: "sorted_wrt (<) (keys s)"
    and pos: "0 < desiredWorkerCount s"
    and lo: "MinInt \<le> v" and room: "v + desiredWorkerCount s \<le> MaxInt"
    and lv: "level_inv g D0 (v - 1) [] s"
    and ne: "xs \<noteq> []"
    and ks: "\<And>k. k \<in> Mapping.keys g \<Longrightarrow> v < k \<Longrightarrow> k \<in> set (keys s)"
    unfolding outer_inv_def v_def xs_def by simp_all
  have nw: "wrap (v + 1) = v + 1"
    using lo room pos by (intro wrap_succ) simp_all
  have "I todo t'" if "I (m # todo) t" "increment v i m t = Inr t'" for m todo t i t'
    using increment_keeps_level[OF wf _ nw that(2)] that(1) by (simp add: I_def)
  then have step: "\<forall>m todo t i t'. I (m # todo) t \<longrightarrow> increment v i m t = Inr t' \<longrightarrow> I todo t'"
    by blast
  have lv0: "level_inv g D0 v xs (s\<lparr>modified := False\<rparr>)"
    using level_next[OF wf lv] by (simp add: xs_def)
  have inv0: "I xs (s\<lparr>modified := False\<rparr>)"
    using lv0 by (simp add: I_def)
  from loop_body_run[of I v, OF step v_def idx pos xs_def ne inv0] obtain s1 n M K' where
    body: "loop_body s = Inr (s1\<lparr>machineSetReplicas := M, keys := K'\<rparr>)"
    and inv1: "I (drop n xs) s1" and n1: "1 \<le> n" "n \<le> length xs"
    and d1: "desiredWorkerCount s1 = desiredWorkerCount s - int n" "0 \<le> desiredWorkerCount s1"
    and all: "0 < desiredWorkerCount s1 \<longrightarrow> n = length xs"
    and i1: "index s1 = index s"
    and off: "\<And>k. k \<noteq> v \<Longrightarrow> Mapping.lookup M k = Mapping.lookup (machineSetReplicas s1) k"
    and up1: "Mapping.lookup_default [] (machineSetReplicas s1) (v + 1) \<noteq> []"
    and K: "Suc (index s) < length K'" "K' ! Suc (index s) = v + 1"
    and K'_def: "K' = (if Suc (index s) < length (keys s) \<and> keys s ! Suc (index s) = v + 1
                 then keys s
                 else take (index s + 1) (keys s) @ ([v + 1] @ drop (index s + 1) (keys s)))"
    unfolding nw by blast
  define s3 where "s3 = s1\<lparr>machineSetReplicas := M, keys := K'\<rparr>"
  have above: "Mapping.lookup M k = Mapping.lookup (machineSetReplicas s1) k" if "v < k" for k
    using off[of k] that by simp
  have inv3: "level_inv g D0 v (drop n xs) s3"
    unfolding s3_def using inv1 level_inv_groups[of v M s1, OF above] by (simp add: I_def)
  have up3: "Mapping.lookup_default [] (machineSetReplicas s3) (v + 1) \<noteq> []"
    using up1 off[of "v + 1"] by (simp add: s3_def lookup_default_def)
  have sorted: "sorted_wrt (<) K'" and sub: "set (keys s) \<subseteq> set K'"
    using pushed_keys_sorted[OF st idx K'_def[unfolded v_def]] by blast+
  have s3_fields: "keys s3 = K'" "index s3 = index s"
    "desiredWorkerCount s3 = desiredWorkerCount s - int n" "stores s3 = stores s1"
    by (simp_all add: s3_def i1 d1)
  have fin: "finished g D0 s3" if "desiredWorkerCount s3 = 0"
    unfolding finished_def using that inv3 by blast
  have next_inv: "outer_inv g D0 (s3\<lparr>index := index s3 + 1\<rparr>)" if more: "0 < desiredWorkerCount s3"
  proof -
    from more all have "n = length xs" by (simp add: s3_fields d1)
    with inv3 have "level_inv g D0 v [] s3" by simp
    moreover have "k \<in> set K'" if "k \<in> Mapping.keys g" "v + 1 < k" for k
      using ks[of k] that sub by auto
    moreover have "v + 1 + desiredWorkerCount s3 \<le> MaxInt" "MinInt \<le> v + 1"
      using room lo n1 by (simp_all add: s3_fields)
    ultimately show ?thesis
      unfolding outer_inv_def using K sorted more up3 by (simp add: s3_fields)
  qed
  show ?thesis
    using idx body fin next_inv n1 d1 unfolding s3_def[symmetric]
    by (auto simp: s3_fields)
qed

lemma initial_outer_inv:
  assumes wf: "wf_groups g" and fits: "fits g D" and D: "0 < D"
  shows "outer_inv g D (initial g D)"
proof -
  let ?K = "Mapping.ordered_keys g"
  from wf have fin: "finite (Mapping.keys g)" and ne: "Mapping.keys g \<noteq> {}"
    and range: "\<And>k. k \<in> Mapping.keys g \<Longrightarrow> MinInt \<le> k"
    by (simp_all add: wf_groups_def)
  have set: "set ?K = Mapping.keys g" using fin by simp
  with ne have len: "0 < length ?K" by auto
  define v where "v = ?K ! 0"
  have st: "sorted_wrt (<) ?K" by (simp add: strict_sorted_iff)
  have v_key: "v \<in> Mapping.keys g"
    using len set unfolding v_def by (metis nth_mem)
  have least: "v \<le> k" if "k \<in> Mapping.keys g" for k
  proof -
    from that set have "k \<in> set ?K" by simp
    then obtain j where "j < length ?K" "k = ?K ! j"
      by (metis in_set_conv_nth)
    then show ?thesis
      unfolding v_def using sorted_nth_mono[of ?K 0 j] by simp
  qed
  have c3: "v \<le> l" if "final_replicas g Mapping.empty m = Some l" for m l
  proof -
    from that have "map_of (pools_of g) m = Some l" by (simp add: final_replicas_def)
    then show "v \<le> l" using least start_is_key[OF wf] by blast
  qed
  have c7: "set (Mapping.lookup_default [] g v) = {m. final_replicas g Mapping.empty m = Some v}"
    using start_of_pool[OF wf] by (auto simp: final_replicas_def)
  have lv: "level_inv g D (v - 1) [] (initial g D)"
  proof (rule level_invI)
    show "\<forall>m l. final_replicas g (machineSetsToEdit (initial g D)) m = Some l \<longrightarrow>
            v - 1 \<le> l \<and> (l = v - 1 \<longrightarrow> m \<in> set [])"
      using c3 by (fastforce simp: initial_def)
    show "set (Mapping.lookup_default [] (machineSetReplicas (initial g D)) (v - 1 + 1)) =
            {m. final_replicas g (machineSetsToEdit (initial g D)) m = Some (v - 1 + 1)}"
      using c7 by (simp add: initial_def)
    show "distinct (Mapping.lookup_default [] (machineSetReplicas (initial g D)) (v - 1 + 1))"
      using group_distinct[OF wf, of v] by (simp add: initial_def)
  qed (simp_all add: initial_def plan_total_def leveling_def)
  have "Mapping.lookup_default [] g v \<noteq> []"
    by (rule group_of_key_nonempty[OF wf v_key])
  moreover have "MinInt \<le> v" "v + D \<le> MaxInt"
    using range[OF v_key] fits v_key by (simp_all add: fits_def)
  ultimately show ?thesis
    using lv len st D set by (simp add: outer_inv_def initial_def v_def)
qed

lemma balance_finishes:
  assumes "wf_groups g" and "fits g D" and "1 \<le> D"
  shows "\<exists>t. balance g D = Some (Inr t) \<and> finished g D t"
proof -
  have "outer_inv g D (initial g D)"
    using initial_outer_inv[OF assms(1) assms(2)] assms(3) by simp
  from outer_loop_total[of "outer_inv g D" "finished g D", OF loop_body_step[OF assms(1)] this]
  show ?thesis by (simp add: balance_def)
qed

subsection \<open>Runs with nothing desired\<close>

lemma range_nothing:
  "desiredWorkerCount s \<le> 0 \<Longrightarrow> range_machineSets v i xs s = Inr s"
  by (cases xs) simp_all

lemma trim_group_fields:
  assumes "trim_group v xs s = Inr s'"
  shows "desiredWorkerCount s' = desiredWorkerCount s" "machineSetsToEdit s' = machineSetsToEdit s"
    "increments s' = increments s" "stores s' = stores s" "keys s' = keys s" "index s' = index s"
    "modified s' = modified s"
  using assms by (auto simp: trim_group_def split: if_splits)

lemma insert_key_fields:
  assumes "insert_key v s = Inr s'"
  shows "desiredWorkerCount s' = desiredWorkerCount s" "machineSetsToEdit s' = machineSetsToEdit s"
    "increments s' = increments s" "stores s' = stores s" "index s' = index s"
  using assms by (auto simp: insert_key_def push_key_def split: if_splits)

lemma loop_body_nothing:
  assumes "desiredWorkerCount s \<le> 0" and "loop_body s = Inr s'"
  shows "desiredWorkerCount s' = desiredWorkerCount s \<and> machineSetsToEdit s' = machineSetsToEdit s \<and>
         increments s' = increments s \<and> stores s' = stores s"
proof -
  define s0 where "s0 = s\<lparr>modified := False\<rparr>"
  define v where "v = keys s ! index s"
  have D: "desiredWorkerCount s0 \<le> 0" using assms(1) by (simp add: s0_def)
  show ?thesis
  proof (cases "Mapping.lookup (machineSetReplicas s) v")
    case None
    then have "insert_key v s0 = Inr s'"
      using assms(2) by (simp add: loop_body_def Let_def s0_def v_def)
    from insert_key_fields[OF this] show ?thesis by (simp add: s0_def)
  next
    case (Some xs)
    have r: "range_machineSets v 0 xs s0 = Inr s0"
      by (rule range_nothing[OF D])
    have "\<exists>s2. trim_group v xs s0 = Inr s2 \<and> insert_key v s2 = Inr s'"
    proof (cases "trim_group v xs s0")
      case (Inl e)
      with Some r assms(2) show ?thesis
        unfolding loop_body_def Let_def s0_def[symmetric]
        by (simp add: v_def s0_def)
    next
      case (Inr s2)
      with Some r assms(2) show ?thesis
        unfolding loop_body_def Let_def s0_def[symmetric]
        by (simp add: v_def s0_def)
    qed
    then obtain s2 where t: "trim_group v xs s0 = Inr s2" and i: "insert_key v s2 = Inr s'"
      by blast
    from trim_group_fields[OF t] insert_key_fields[OF i] show ?thesis by (simp add: s0_def)
  qed
qed

lemma nothing_desired:
  assumes "D \<le> 0"
  shows "\<exists>r. balance g D = Some r \<and>
           (\<forall>s. r = Inr s \<longrightarrow> machineSetsToEdit s = Mapping.empty \<and> increments s = [] \<and> stores s = [])"
proof -
  let ?s = "initial g D"
  have D: "desiredWorkerCount ?s \<le> 0"
    using assms by (simp add: initial_def)
  show ?thesis
  proof (cases "index ?s < length (keys ?s)")
    case False
    then have "balance g D = Some (Inr ?s)"
      unfolding balance_def by (subst outer_loop.simps) simp
    then show ?thesis by (simp add: initial_def)
  next
    case True
    show ?thesis
    proof (cases "loop_body ?s")
      case (Inl e)
      with True have "balance g D = Some (Inl e)"
        unfolding balance_def by (subst outer_loop.simps) simp
      then show ?thesis by simp
    next
      case (Inr s')
      from loop_body_nothing[OF D Inr] have s': "desiredWorkerCount s' \<le> 0"
        "machineSetsToEdit s' = Mapping.empty" "increments s' = []" "stores s' = []"
        using D by (simp_all add: initial_def)
      with True Inr have "balance g D = Some (Inr s')"
        unfolding balance_def by (subst outer_loop.simps) simp
      with s' show ?thesis by simp
    qed
  qed
qed


subsection \<open>The plan history, for any grouping\<close>





subsection \<open>Leveling, in every run\<close>

lemma pool_key:
  assumes "finite (Mapping.keys g)" and "(q, k) \<in> set (pools_of g)"
  shows "k \<in> Mapping.keys g"
  using assms by (auto simp: pools_of_def)

lemma pending_invD:
  assumes "pending_inv g v todo s" and "(q, k) \<in> set (pools_of g)"
    and "q \<notin> fst ` set (increments s)"
  shows "v \<le> k" and "k = v \<Longrightarrow> q \<in> set todo"
    and "v < k \<Longrightarrow> q \<in> set (Mapping.lookup_default [] (machineSetReplicas s) k)"
  using assms unfolding pending_inv_def by blast+

lemma increment_keeps_pending:
  assumes inv: "pending_inv g v (m # todo) s" and run: "increment v i m s = Inr s'"
  shows "pending_inv g v todo s'"
proof -
  define w where "w = wrap (v + 1)"
  from increment_result[of v i m s] run have
    msr: "machineSetReplicas s' =
       Mapping.update w (Mapping.lookup_default [] (machineSetReplicas s) w @ [m])
         (machineSetReplicas s)"
    and log: "increments s' = increments s @ [(m, v)]"
    by (simp_all add: w_def)
  from inv have lev: "leveling g (increments s)" by (simp add: pending_inv_def)
  have below: "q \<in> fst ` set (increments s)" if "(q, k) \<in> set (pools_of g)" "k < v" for q k
  proof (rule ccontr)
    assume "q \<notin> fst ` set (increments s)"
    from pending_invD(1)[OF inv that(1) this] that(2) show False by simp
  qed
  have l': "leveling g (increments s')"
    unfolding log by (rule leveling_snoc[OF lev below])
  have p': "v \<le> k \<and> (k = v \<longrightarrow> q \<in> set todo) \<and>
            (v < k \<longrightarrow> q \<in> set (Mapping.lookup_default [] (machineSetReplicas s') k))"
    if pool: "(q, k) \<in> set (pools_of g)" and new: "q \<notin> fst ` set (increments s')" for q k
  proof -
    from new have old: "q \<notin> fst ` set (increments s)" and qm: "q \<noteq> m"
      by (auto simp: log)
    note d = pending_invD[OF inv pool old]
    have "q \<in> set (Mapping.lookup_default [] (machineSetReplicas s') k)" if "v < k"
      using d(3)[OF that] by (cases "k = w") (simp_all add: msr lookup_default_update')
    with d(1) d(2) qm show ?thesis by auto
  qed
  show ?thesis
    unfolding pending_inv_def using l' p' by blast
qed

lemma loop_body_pending:
  assumes wf: "wf_groups g" and inv: "pending_head g s"
  shows "index s < length (keys s) \<and>
         (\<exists>s'. loop_body s = Inr s' \<and> 0 \<le> desiredWorkerCount s' \<and>
           desiredWorkerCount s' < desiredWorkerCount s \<and>
           (desiredWorkerCount s' = 0 \<longrightarrow> leveling g (increments s')) \<and>
           (0 < desiredWorkerCount s' \<longrightarrow> pending_head g (s'\<lparr>index := index s' + 1\<rparr>)))"
proof -
  define v where "v = keys s ! index s"
  define w where "w = wrap (v + 1)"
  define xs where "xs = Mapping.lookup_default [] (machineSetReplicas s) v"
  from inv have idx: "index s < length (keys s)" and pos: "0 < desiredWorkerCount s"
    and lo: "MinInt \<le> v" and hi: "v \<le> MaxInt" and ne: "xs \<noteq> []"
    and pv: "pending_inv g v xs s"
    unfolding pending_head_def v_def xs_def by simp_all
  from wf have fin: "finite (Mapping.keys g)"
    and range: "\<And>k. k \<in> Mapping.keys g \<Longrightarrow> k \<le> MaxInt"
    by (simp_all add: wf_groups_def)
  have inv0: "pending_inv g v xs (s\<lparr>modified := False\<rparr>)"
    using pv by (simp add: pending_inv_def)
  have step: "\<forall>m todo t i t'. pending_inv g v (m # todo) t \<longrightarrow> increment v i m t = Inr t' \<longrightarrow>
                pending_inv g v todo t'"
    using increment_keeps_pending by blast
  from loop_body_run[of "pending_inv g v" v, OF step v_def idx pos xs_def ne inv0]
  obtain s1 n M K' where
    body: "loop_body s = Inr (s1\<lparr>machineSetReplicas := M, keys := K'\<rparr>)"
    and inv1: "pending_inv g v (drop n xs) s1" and n1: "1 \<le> n" "n \<le> length xs"
    and d1: "desiredWorkerCount s1 = desiredWorkerCount s - int n" "0 \<le> desiredWorkerCount s1"
    and all: "0 < desiredWorkerCount s1 \<longrightarrow> n = length xs"
    and i1: "index s1 = index s"
    and off: "\<And>k. k \<noteq> v \<Longrightarrow> Mapping.lookup M k = Mapping.lookup (machineSetReplicas s1) k"
    and up1: "Mapping.lookup_default [] (machineSetReplicas s1) w \<noteq> []"
    and K: "Suc (index s) < length K'" "K' ! Suc (index s) = w"
    unfolding w_def by blast
  define s3 where "s3 = s1\<lparr>machineSetReplicas := M, keys := K'\<rparr>"
  have grp: "Mapping.lookup_default [] M k = Mapping.lookup_default [] (machineSetReplicas s1) k"
    if "k \<noteq> v" for k
    using off[OF that] by (simp add: lookup_default_def)
  have s3_fields: "keys s3 = K'" "index s3 = index s" "increments s3 = increments s1"
    "desiredWorkerCount s3 = desiredWorkerCount s - int n" "machineSetReplicas s3 = M"
    by (simp_all add: s3_def i1 d1)
  have lev3: "leveling g (increments s3)"
    using inv1 by (simp add: pending_inv_def s3_fields)
  have wv: "w \<noteq> v" unfolding w_def by (rule wrap_succ_neq[OF lo hi])
  have next_inv: "pending_head g (s3\<lparr>index := index s3 + 1\<rparr>)" if more: "0 < desiredWorkerCount s3"
  proof -
    from more all have "n = length xs" by (simp add: s3_fields d1)
    with inv1 have done_v: "pending_inv g v [] s1" by simp
    have p: "w \<le> k \<and> q \<in> set (Mapping.lookup_default [] M k)"
      if pool: "(q, k) \<in> set (pools_of g)" and new: "q \<notin> fst ` set (increments s1)" for q k
    proof -
      note d = pending_invD[OF done_v pool new]
      from d(1) d(2) have vk: "v < k" by fastforce
      from range[OF pool_key[OF fin pool]] vk have "v < MaxInt" by simp
      with lo have "w = v + 1" unfolding w_def by (rule wrap_succ)
      with vk have "w \<le> k" by simp
      moreover have "q \<in> set (Mapping.lookup_default [] M k)"
        using d(3)[OF vk] grp[of k] vk by simp
      ultimately show ?thesis by simp
    qed
    have "pending_inv g w (Mapping.lookup_default [] M w) (s3\<lparr>index := index s3 + 1\<rparr>)"
      unfolding pending_inv_def using lev3 p by (auto simp: s3_fields)
    moreover have "Mapping.lookup_default [] M w \<noteq> []"
      using up1 grp[OF wv] by simp
    moreover have "MinInt \<le> w \<and> w \<le> MaxInt"
      unfolding w_def by (rule wrap_range)
    ultimately show ?thesis
      unfolding pending_head_def using K more by (simp add: s3_fields)
  qed
  show ?thesis
    using idx body lev3 next_inv n1 d1 unfolding s3_def[symmetric]
    by (auto simp: s3_fields)
qed

lemma initial_pending:
  assumes wf: "wf_groups g" and D: "0 < D"
  shows "pending_head g (initial g D)"
proof -
  let ?K = "Mapping.ordered_keys g"
  from wf have fin: "finite (Mapping.keys g)" and ne: "Mapping.keys g \<noteq> {}"
    and range: "\<And>k. k \<in> Mapping.keys g \<Longrightarrow> MinInt \<le> k \<and> k \<le> MaxInt"
    by (simp_all add: wf_groups_def)
  have set: "set ?K = Mapping.keys g" using fin by simp
  with ne have len: "0 < length ?K" by auto
  define v where "v = ?K ! 0"
  have v_key: "v \<in> Mapping.keys g"
    using len set unfolding v_def by (metis nth_mem)
  have least: "v \<le> k" if "k \<in> Mapping.keys g" for k
  proof -
    from that set have "k \<in> set ?K" by simp
    then obtain j where "j < length ?K" "k = ?K ! j"
      by (metis in_set_conv_nth)
    then show ?thesis
      unfolding v_def using sorted_nth_mono[of ?K 0 j] by simp
  qed
  have "v \<le> k \<and> q \<in> set (Mapping.lookup_default [] g k)" if "(q, k) \<in> set (pools_of g)" for q k
    using that least[OF pool_key[OF fin that]] in_pools_of[OF fin, of q k] by simp
  then have "pending_inv g v (Mapping.lookup_default [] g v) (initial g D)"
    unfolding pending_inv_def by (auto simp: initial_def leveling_def)
  moreover have "Mapping.lookup_default [] g v \<noteq> []"
    by (rule group_of_key_nonempty[OF wf v_key])
  ultimately show ?thesis
    using len D range[OF v_key] by (simp add: pending_head_def initial_def v_def)
qed

lemma balance_levels:
  assumes "wf_groups g" and "1 \<le> D"
  shows "\<exists>t. balance g D = Some (Inr t) \<and> leveling g (increments t)"
proof -
  have "pending_head g (initial g D)"
    using initial_pending[OF assms(1), of D] assms(2) by simp
  from outer_loop_total[of "pending_head g" "\<lambda>t. leveling g (increments t)",
      OF loop_body_pending[OF assms(1)] this]
  show ?thesis by (simp add: balance_def)
qed

subsection \<open>The claims about the balancer\<close>

lemma finished_total:
  assumes "finished g D t"
  shows "plan_total (machineSetsToEdit t) = D"
proof -
  from assms obtain v todo where "level_inv g D v todo t" and "desiredWorkerCount t = 0"
    unfolding finished_def by blast
  with level_invD(9)[of g D v todo t] show ?thesis by simp
qed

lemma plan_total_matches_request:
  assumes "wf_groups g" and "fits g D" and "1 \<le> D"
  shows "\<exists>p. adjustMachineSets g D = Some (Inr p) \<and> plan_total p = D"
proof -
  from balance_finishes[OF assms] obtain t where "balance g D = Some (Inr t)" "finished g D t"
    by blast
  with finished_total[of g D t] show ?thesis by (simp add: adjustMachineSets_def)
qed

text \<open>C3. For a well-formed grouping the pass ends, with a plan when at least one
  worker is desired, and the log of its increments satisfies the leveling invariant: an
  increment of a machine set that was incremented before comes only after the first
  increment of every machine set whose starting count is below the level the increment
  starts from. This holds in every run, also one in which a count wraps around.\<close>

theorem leveling_invariant:
  assumes "wf_groups g"
  shows "\<exists>r. balance g D = Some r \<and> (1 \<le> D \<longrightarrow> (\<exists>s. r = Inr s)) \<and>
           (\<forall>s. r = Inr s \<longrightarrow> leveling g (increments s))"
proof (cases "1 \<le> D")
  case True
  from balance_levels[OF assms True] show ?thesis by auto
next
  case False
  then have "D \<le> 0" by simp
  from nothing_desired[OF this, of g] obtain r where r: "balance g D = Some r"
    and none: "\<And>s. r = Inr s \<Longrightarrow> increments s = []" by blast
  have "leveling g (increments s)" if "r = Inr s" for s
    using none[OF that] by (simp add: leveling_def)
  with r False show ?thesis by simp
qed

lemma wf_scenario_A: "wf_groups scenario_A"
  by (simp add: wf_groups_def scenario_A_def pools_of_def lookup_default_def MinInt_def MaxInt_def)


text \<open>The log of scenario A: \<open>A\<close> is incremented a second time, after \<open>B\<close>.\<close>

theorem leveling_invariant_witness:
  "wf_groups scenario_A \<and>
   (\<exists>s. balance scenario_A 3 = Some (Inr s) \<and>
        increments s = [(''A'', 2), (''B'', 2), (''A'', 3)] \<and>
        leveling scenario_A (increments s))"
proof -
  have "\<exists>s. balance scenario_A 3 = Some (Inr s) \<and>
            increments s = [(''A'', 2), (''B'', 2), (''A'', 3)]"
    by (simp add: scenario_A_def run_simps)
  with leveling_invariant[OF wf_scenario_A, of 3] wf_scenario_A show ?thesis
    by auto
qed





lemma plan_by_lookup:
  assumes "\<exists>p. adjustMachineSets g D = Some (Inr p) \<and>
              (\<forall>k. Mapping.lookup p k = Mapping.lookup P k)"
  shows "adjustMachineSets g D = Some (Inr P)"
proof -
  from assms obtain p where p: "adjustMachineSets g D = Some (Inr p)"
    and eq: "\<And>k. Mapping.lookup p k = Mapping.lookup P k"
    by blast
  have "p = P"
    by (rule mapping_eqI) (rule eq)
  with p show ?thesis by simp
qed



text \<open>C5. Two machine sets \<open>A\<close> and \<open>B\<close> at two replicas, \<open>A\<close> listed first, and three
  more workers asked for: the plan is \<open>A: 2 \<rightarrow> 4\<close>, \<open>B: 2 \<rightarrow> 3\<close>.\<close>

theorem scenario_A_plan: "adjustMachineSets scenario_A 3 = Some (Inr plan_A)"
  by (rule plan_by_lookup) (simp add: scenario_A_def plan_A_def run_simps lookup_of_alist)

text \<open>C1. The plan of a pass over at least one machine set with \<open>D \<ge> 0\<close> additional
  workers should satisfy \<open>plan_total = D\<close>. For \<open>D \<ge> 1\<close> it does, as long as no count
  can pass \<open>MaxInt\<close> (\<open>plan_total_matches_request\<close>). For \<open>D = 0\<close> and a grouping with
  one replica count the pass returns no plan: nothing was modified, so line 96 goes on to
  read \<open>keys[index + 1]\<close> past the end of \<open>keys\<close>.\<close>

theorem one_pool_zero_panics: "adjustMachineSets one_pool 0 = Some (Inl IndexOutOfRange)"
  by (simp add: one_pool_def run_simps)

text \<open>C2. A pass with \<open>D \<le> 0\<close> should return an empty plan. On a grouping with
  one replica count it makes no increment and then reads \<open>keys[index + 1]\<close> past the
  end of \<open>keys\<close>, as for C1: it panics and returns no plan.\<close>

theorem one_level_negative_panics: "adjustMachineSets one_level (- 1) = Some (Inl IndexOutOfRange)"
  by (simp add: one_level_def run_simps)

section \<open>Properties of the poller\<close>

lemma range_items_all: "range_items items = list_all isNodeReady items"
  by (induction items) auto

lemma nodes_condition_cases:
  "nodes_condition l = Inr True \<longleftrightarrow> all_ready l"
  "nodes_condition l = Inr False \<longleftrightarrow> some_unready l"
  "nodes_condition l = Inl e \<longleftrightarrow> l = Inl e"
  by (auto simp: nodes_condition_def all_ready_def some_unready_def range_items_all
      list_all_iff list_ex_iff split: sum.splits)

lemma immediate_as_tick:
  "snd (PollUntilContextTimeout True c now ticks) = snd (poll_ticks c (now # ticks) n)"
proof -
  have shift: "snd (poll_ticks c ws a) = snd (poll_ticks c ws b)" for ws a b
    by (induction ws arbitrary: a b) (auto split: sum.splits)
  show ?thesis
    using shift[of ticks 0 "Suc n"]
    by (auto simp: PollUntilContextTimeout_def split: sum.splits)
qed

lemma poll_success:
  "snd (poll_ticks nodes_condition ws n) = None \<longleftrightarrow>
     (\<exists>i < length ws. all_ready (ws ! i) \<and> (\<forall>j < i. \<not> isl (ws ! j)))"
proof (induction ws arbitrary: n)
  case Nil
  show ?case by simp
next
  case (Cons w ws)
  consider (err) e where "nodes_condition w = Inl e"
    | (ok) "nodes_condition w = Inr True"
    | (wait) "nodes_condition w = Inr False"
    by (cases "nodes_condition w") auto
  then show ?case
  proof cases
    case err
    then have w: "w = Inl e" by (simp add: nodes_condition_cases)
    have "\<not> (\<exists>i < length (w # ws). all_ready ((w # ws) ! i) \<and> (\<forall>j < i. \<not> isl ((w # ws) ! j)))"
    proof
      assume "\<exists>i < length (w # ws). all_ready ((w # ws) ! i) \<and> (\<forall>j < i. \<not> isl ((w # ws) ! j))"
      then obtain i where i: "all_ready ((w # ws) ! i)" "\<forall>j < i. \<not> isl ((w # ws) ! j)" by blast
      show False
      proof (cases i)
        case 0
        with i(1) w show False by (simp add: all_ready_def)
      next
        case (Suc i')
        with i(2) have "\<not> isl ((w # ws) ! 0)" by blast
        with w show False by simp
      qed
    qed
    with err show ?thesis by simp
  next
    case ok
    then have "all_ready ((w # ws) ! 0)" by (simp add: nodes_condition_cases)
    then have "\<exists>i < length (w # ws). all_ready ((w # ws) ! i) \<and> (\<forall>j < i. \<not> isl ((w # ws) ! j))"
      by (intro exI[of _ 0]) simp
    with ok show ?thesis by simp
  next
    case wait
    then have un: "some_unready w" by (simp add: nodes_condition_cases)
    then have nr: "\<not> all_ready w" and ni: "\<not> isl w"
      by (auto simp: some_unready_def all_ready_def list_all_iff list_ex_iff split: sum.splits)
    have "(\<exists>i < length (w # ws). all_ready ((w # ws) ! i) \<and> (\<forall>j < i. \<not> isl ((w # ws) ! j))) \<longleftrightarrow>
          (\<exists>i < length ws. all_ready (ws ! i) \<and> (\<forall>j < i. \<not> isl (ws ! j)))"
      using nr ni by (simp add: Ex_less_Suc2 All_less_Suc2)
    with wait Cons.IH[of "Suc n"] show ?thesis by simp
  qed
qed

lemma poll_timeout:
  "snd (poll_ticks nodes_condition ws n) = Some Timeout \<longleftrightarrow> (\<forall>l \<in> set ws. some_unready l)"
proof (induction ws arbitrary: n)
  case Nil
  show ?case by simp
next
  case (Cons w ws)
  consider (err) e where "nodes_condition w = Inl e"
    | (ok) "nodes_condition w = Inr True"
    | (wait) "nodes_condition w = Inr False"
    by (cases "nodes_condition w") auto
  then show ?case
  proof cases
    case err
    then have "\<not> some_unready w" by (simp add: nodes_condition_cases some_unready_def)
    with err show ?thesis by simp
  next
    case ok
    then have "\<not> some_unready w" using nodes_condition_cases(2)[of w] by simp
    with ok show ?thesis by simp
  next
    case wait
    then have "some_unready w" by (simp add: nodes_condition_cases)
    with wait Cons.IH[of "Suc n"] show ?thesis by simp
  qed
qed

lemma poll_query:
  "snd (poll_ticks nodes_condition ws n) = Some (Query e) \<longleftrightarrow>
     (\<exists>i < length ws. ws ! i = Inl e \<and> (\<forall>j < i. some_unready (ws ! j)))"
proof (induction ws arbitrary: n)
  case Nil
  show ?case by simp
next
  case (Cons w ws)
  consider (err) e' where "nodes_condition w = Inl e'"
    | (ok) "nodes_condition w = Inr True"
    | (wait) "nodes_condition w = Inr False"
    by (cases "nodes_condition w") auto
  then show ?case
  proof cases
    case err
    then have w: "w = Inl e'" by (simp add: nodes_condition_cases)
    then have nu: "\<not> some_unready w" by (simp add: some_unready_def)
    have "(\<exists>i < length (w # ws). (w # ws) ! i = Inl e \<and> (\<forall>j < i. some_unready ((w # ws) ! j))) \<longleftrightarrow> e' = e"
      using w nu by (auto simp: Ex_less_Suc2 All_less_Suc2)
    with err show ?thesis by auto
  next
    case ok
    then have ar: "all_ready w" by (simp add: nodes_condition_cases)
    then have "\<not> some_unready w" "w \<noteq> Inl e"
      by (auto simp: some_unready_def all_ready_def list_all_iff list_ex_iff split: sum.splits)
    then have "\<not> (\<exists>i < length (w # ws). (w # ws) ! i = Inl e \<and> (\<forall>j < i. some_unready ((w # ws) ! j)))"
      by (auto simp: Ex_less_Suc2 All_less_Suc2)
    with ok show ?thesis by simp
  next
    case wait
    then have un: "some_unready w" by (simp add: nodes_condition_cases)
    then have "w \<noteq> Inl e" by (auto simp: some_unready_def)
    with un have "(\<exists>i < length (w # ws). (w # ws) ! i = Inl e \<and> (\<forall>j < i. some_unready ((w # ws) ! j))) \<longleftrightarrow>
          (\<exists>i < length ws. ws ! i = Inl e \<and> (\<forall>j < i. some_unready (ws ! j)))"
      by (simp add: Ex_less_Suc2 All_less_Suc2)
    with wait Cons.IH[of "Suc n"] show ?thesis by simp
  qed
qed

text \<open>C7, amended. \<open>waitForNodes\<close> returns \<open>nil\<close> exactly when some check (the
  immediate one or a tick before the deadline) finds every listed node ready and no
  listing failed before it; it returns Timeout exactly when every check up to the deadline
  listed the nodes and found one of them not ready at that check; it returns a query error
  exactly when a listing fails after checks that each found a node not ready. These are
  the three outcomes.\<close>

theorem waitForNodes_outcomes:
  "(snd (waitForNodes now ticks) = None \<longleftrightarrow>
      (\<exists>i < length (now # ticks). all_ready ((now # ticks) ! i) \<and>
         (\<forall>j < i. \<not> isl ((now # ticks) ! j)))) \<and>
   (snd (waitForNodes now ticks) = Some Timeout \<longleftrightarrow>
      (\<forall>l \<in> set (now # ticks). some_unready l)) \<and>
   (snd (waitForNodes now ticks) = Some (Query e) \<longleftrightarrow>
      (\<exists>i < length (now # ticks). (now # ticks) ! i = Inl e \<and>
         (\<forall>j < i. some_unready ((now # ticks) ! j))))"
  unfolding waitForNodes_def immediate_as_tick[of nodes_condition now ticks 0]
  using poll_success[of "now # ticks" 0] poll_timeout[of "now # ticks" 0]
    poll_query[of "now # ticks" 0 e]
  by blast

lemma isNodeReady_ready [simp]: "isNodeReady (ready_node n)"
  by (simp add: isNodeReady_def ready_node_def NodeReady_def ConditionTrue_def)

lemma isNodeReady_unready [simp]: "\<not> isNodeReady (unready_node n)"
  by (simp add: isNodeReady_def unready_node_def NodeReady_def ConditionTrue_def)

text \<open>C7 as stated fails: node \<open>a\<close> is ready at the immediate check and node
  \<open>b\<close> at the only tick, so no node is "never observed ready", and yet the poller times
  out, because no single check found both ready.\<close>

theorem flapping_nodes_time_out:
  "waitForNodes (Inr [ready_node ''a'', unready_node ''b''])
     [Inr [unready_node ''a'', ready_node ''b'']] = (1, Some Timeout) \<and>
   isNodeReady (ready_node ''a'') \<and> isNodeReady (ready_node ''b'')"
  by (simp add: waitForNodes_def PollUntilContextTimeout_def nodes_condition_def)

text \<open>Two runs of the amended C7: the flapping nodes time out, and a node that becomes
  ready at the second tick ends the wait with success.\<close>

theorem waitForNodes_outcomes_witness:
  "some_unready (Inr [ready_node ''a'', unready_node ''b'']) \<and>
   some_unready (Inr [unready_node ''a'', ready_node ''b'']) \<and>
   snd (waitForNodes (Inr [ready_node ''a'', unready_node ''b''])
          [Inr [unready_node ''a'', ready_node ''b'']]) = Some Timeout \<and>
   all_ready (Inr [ready_node ''a'', ready_node ''b'']) \<and>
   snd (waitForNodes (Inr [ready_node ''a'', unready_node ''b''])
          [Inr [ready_node ''a'', unready_node ''b''], Inr [ready_node ''a'', ready_node ''b'']]) = None"
proof -
  let ?now = "Inr [ready_node ''a'', unready_node ''b''] :: listing"
  let ?flip = "Inr [unready_node ''a'', ready_node ''b''] :: listing"
  let ?all = "Inr [ready_node ''a'', ready_node ''b''] :: listing"
  have u: "some_unready ?now" "some_unready ?flip" and a: "all_ready ?all"
    by (simp_all add: some_unready_def all_ready_def)
  have t: "snd (waitForNodes ?now [?flip]) = Some Timeout"
    using waitForNodes_outcomes[of ?now "[?flip]"] u by simp
  have "\<exists>i < length [?now, ?now, ?all]. all_ready ([?now, ?now, ?all] ! i) \<and>
          (\<forall>j < i. \<not> isl ([?now, ?now, ?all] ! j))"
    using a by (intro exI[of _ 2]) (simp add: less_Suc_eq numeral_2_eq_2 )
  then have s: "snd (waitForNodes ?now [?now, ?all]) = None"
    using waitForNodes_outcomes[of ?now "[?now, ?all]"] by blast
  from u a t s show ?thesis by simp
qed

text \<open>C10. When the listing is empty, \<open>waitForNodes\<close> returns \<open>nil\<close> at the
  immediate check, having waited for no tick, whatever the later listings would be.\<close>

theorem empty_listing_succeeds_at_once: "waitForNodes (Inr []) ticks = (0, None)"
  by (simp add: waitForNodes_def PollUntilContextTimeout_def nodes_condition_def)


section \<open>Properties of the orchestrator\<close>

text \<open>C9. When \<open>measurements.Stop\<close> fails, the error is logged and the run goes on
  through the post-scale snapshot (\<open>getMachines\<close>), the diffing
  (\<open>discardPreviousMachines\<close>), the finalization of the metrics and, when \<open>gc\<close> is set,
  the revert (\<open>editMachineSets\<close> with \<open>false\<close>): the calls from the stop on are those
  of a run in which the stop succeeds, with the one \<open>log.Error\<close> added, and the calls
  before the stop are the same.\<close>

theorem stop_failure_not_fatal:
  "dropWhile (\<lambda>c. c \<noteq> MeasurementsStop) (OrchestrateWorkload gc (Some err)) =
     [MeasurementsStop, LogError err, GetMachines, DiscardPreviousMachines, FinalizeMetrics] @
     (if gc then [LogInfo ''Restoring machine sets to previous state'', EditMachineSets False]
      else []) \<and>
   dropWhile (\<lambda>c. c \<noteq> MeasurementsStop) (OrchestrateWorkload gc None) =
     [MeasurementsStop, GetMachines, DiscardPreviousMachines, FinalizeMetrics] @
     (if gc then [LogInfo ''Restoring machine sets to previous state'', EditMachineSets False]
      else []) \<and>
   takeWhile (\<lambda>c. c \<noteq> MeasurementsStop) (OrchestrateWorkload gc (Some err)) =
     takeWhile (\<lambda>c. c \<noteq> MeasurementsStop) (OrchestrateWorkload gc None)"
  by (simp add: OrchestrateWorkload_def)

section \<open>Properties of the retry loop\<close>

lemma backoff_listed: "a < length WAIT_TIMES \<Longrightarrow> WAIT_TIMES ! a = backoff a"
proof -
  assume "a < length WAIT_TIMES"
  then have "min a (length WAIT_TIMES - 1) = a" by linarith
  then show ?thesis by (simp only: backoff_def)
qed

lemma backoff_capped: "\<not> a < length WAIT_TIMES \<Longrightarrow> last WAIT_TIMES = backoff a"
proof -
  assume "\<not> a < length WAIT_TIMES"
  then have "min a (length WAIT_TIMES - 1) = length WAIT_TIMES - 1" by simp
  moreover have "WAIT_TIMES \<noteq> []" by (simp add: WAIT_TIMES_def)
  ultimately show ?thesis by (simp add: backoff_def last_conv_nth)
qed

lemma for_attempt_from:
  assumes "k < MAX_RETRIES" and "\<forall>i. 1 \<le> i \<and> i \<le> k \<longrightarrow> \<not> COMMAND i" and "COMMAND (Suc k)"
    and "a \<le> k"
  shows "for_attempt COMMAND [Suc a ..< Suc MAX_RETRIES] \<lparr>counter = a, slept = S, tried = a\<rparr> =
           (Break, \<lparr>counter = k, slept = S + (\<Sum>i = a ..< k. backoff i), tried = Suc k\<rparr>)"
  using assms(4)
proof (induction "k - a" arbitrary: a S)
  case 0
  then have ak: "a = k" by simp
  have "[Suc a ..< Suc MAX_RETRIES] = Suc a # [Suc (Suc a) ..< Suc MAX_RETRIES]"
    using assms(1) ak by (simp add: upt_conv_Cons)
  then show ?case using ak assms(3) by simp
next
  case (Suc d)
  then have lt: "a < k" by simp
  have cons: "[Suc a ..< Suc MAX_RETRIES] = Suc a # [Suc (Suc a) ..< Suc MAX_RETRIES]"
    using assms(1) lt by (simp add: upt_conv_Cons)
  have fail: "\<not> COMMAND (Suc a)" using assms(2) lt by simp
  have more: "Suc a < MAX_RETRIES" using assms(1) lt by simp
  have step: "for_attempt COMMAND [Suc a ..< Suc MAX_RETRIES] \<lparr>counter = a, slept = S, tried = a\<rparr> =
     for_attempt COMMAND [Suc (Suc a) ..< Suc MAX_RETRIES]
       \<lparr>counter = Suc a, slept = S + backoff a, tried = Suc a\<rparr>"
    unfolding cons using fail more by (simp add: backoff_listed backoff_capped)
  have d: "d = k - Suc a" using Suc.hyps(2) by simp
  have le: "Suc a \<le> k" using lt by simp
  have ih: "for_attempt COMMAND [Suc (Suc a) ..< Suc MAX_RETRIES]
       \<lparr>counter = Suc a, slept = S + backoff a, tried = Suc a\<rparr> =
      (Break, \<lparr>counter = k, slept = S + backoff a + (\<Sum>i = Suc a ..< k. backoff i), tried = Suc k\<rparr>)"
    by (rule Suc.hyps(1)[OF d le])
  have "(\<Sum>i = a ..< k. backoff i) = backoff a + (\<Sum>i = Suc a ..< k. backoff i)"
    using lt by (simp add: sum.atLeast_Suc_lessThan)
  with step ih show ?case by simp
qed

text \<open>C8. When the probe fails on its first \<open>k\<close> runs, \<open>k < MAX_RETRIES\<close>, and
  succeeds on run \<open>k + 1\<close>, the loop leaves by \<open>break\<close> after \<open>k + 1\<close> runs, and
  the seconds slept are the sum of \<open>backoff i\<close> for \<open>i < k\<close>: nothing is slept after
  the run that succeeds.\<close>

theorem retry_succeeds_after_k_failures:
  assumes "k < MAX_RETRIES" and "\<forall>i. 1 \<le> i \<and> i \<le> k \<longrightarrow> \<not> COMMAND i" and "COMMAND (Suc k)"
  shows "retry_vm COMMAND = (Break, \<lparr>counter = k, slept = (\<Sum>i < k. backoff i), tried = Suc k\<rparr>)"
  using for_attempt_from[OF assms, of 0 0] by (simp add: retry_vm_def atLeast0LessThan)

text \<open>A probe that fails twice: three runs, and \<open>1 + 2\<close> seconds slept.\<close>

theorem retry_succeeds_after_k_failures_witness:
  "(2::nat) < MAX_RETRIES \<and>
   retry_vm (\<lambda>n. 3 \<le> n) = (Break, \<lparr>counter = 2, slept = 3, tried = 3\<rparr>)"
proof -
  have k: "(2::nat) < MAX_RETRIES" by (simp add: MAX_RETRIES_def)
  have f: "\<forall>i. 1 \<le> i \<and> i \<le> 2 \<longrightarrow> \<not> (\<lambda>n::nat. 3 \<le> n) i" by simp
  have t: "(\<lambda>n::nat. 3 \<le> n) (Suc 2)" by simp
  have s: "(\<Sum>i < (2::nat). backoff i) = 3"
    by (simp add: backoff_def WAIT_TIMES_def lessThan_Suc numeral_2_eq_2)
  from retry_succeeds_after_k_failures[OF k f t] s k show ?thesis by simp
qed

end
